theory Spec2Isabelle
  imports Main "HOL-Library.Word"
begin

unbundle bit_operations_syntax

section \<open>Data model of the cache simulator (A9.c)\<close>

text \<open>
  \<open>unsigned int\<close> is a 32-bit word: subtraction wraps and comparison is unsigned.
  The \<open>int\<close> fields of the configuration are HOL integers: the program computes with
  them only on values that \<open>validate_config\<close> has bounded (set count, associativity, line
  size and the bit widths derived from them). The four statistics counters are \<open>int\<close>s
  that the program increments without any bound, so they are 32-bit words too: \<open>sint\<close>
  reads the value, and \<open>++\<close> at \<open>INT_MAX\<close> wraps to \<open>INT_MIN\<close>, as it does in the
  compiled program.
\<close>

type_synonym u32 = "32 word"
type_synonym c_int = "32 word"

definition INT_MAX :: int where "INT_MAX = 2147483647"

definition MAX_CACHE_SETS :: int where "MAX_CACHE_SETS = 8192"
definition MAX_ASSOCIATIVITY :: int where "MAX_ASSOCIATIVITY = 8"
definition MAX_LINE_SIZE :: int where "MAX_LINE_SIZE = 64"

record CacheConfig =
  num_sets :: int
  associativity :: int
  line_size :: int
  offset_bits :: int
  index_bits :: int

text \<open>The C field \<open>valid\<close> is an \<open>int\<close> that only ever holds 0 or 1 and is only
  tested for truth, so it is a \<open>bool\<close> here.\<close>

record CacheLine =
  valid :: bool
  tag :: u32
  lru_counter :: u32

record CacheStats =
  hits :: c_int
  misses :: c_int
  mem_reads :: c_int
  mem_writes :: c_int

text \<open>One line printed by \<open>access_cache\<close>: the arguments of its \<open>printf\<close>, in order.
  \<open>o_hit\<close> stands for the string \<open>"hit "\<close> (True) or \<open>"miss"\<close> (False).\<close>

record out_line =
  o_type :: char
  o_address :: u32
  o_tag :: u32
  o_index :: u32
  o_offset :: u32
  o_hit :: bool
  o_memrefs :: int

text \<open>The state \<open>access_cache\<close> works on: the cache array, the statistics and the
  lines written to standard output so far.\<close>

record sim_state =
  cache :: "CacheLine list list"
  stats :: CacheStats
  printed :: "out_line list"

datatype config_error =
  SetsRange | AssocRange | LineRange | SetsNotPow2 | LineNotPow2

section \<open>Geometry\<close>

text \<open>\<open>log2_int\<close>: the while loop \<open>while (n > 1) { n >>= 1; bits++; }\<close>.\<close>

function log2_loop :: "int \<Rightarrow> int \<Rightarrow> int" where
  "log2_loop n bits = (if n > 1 then log2_loop (drop_bit 1 n) (bits + 1) else bits)"
  by pat_completeness auto
termination
  by (relation "measure (\<lambda>(n, bits). nat n)") (auto simp: drop_bit_eq_div)

declare log2_loop.simps [simp del]

definition log2_int :: "int \<Rightarrow> int" where
  "log2_int n = log2_loop n 0"

text \<open>\<open>validate_config\<close>: \<open>None\<close> is the return value 1 (accepted); \<open>Some e\<close> is the
  return value 0 after the error message \<open>e\<close> on standard error.\<close>

definition validate_config :: "CacheConfig \<Rightarrow> config_error option" where
  "validate_config config =
     (if num_sets config \<le> 0 \<or> num_sets config > MAX_CACHE_SETS then Some SetsRange
      else if associativity config \<le> 0 \<or> associativity config > MAX_ASSOCIATIVITY
        then Some AssocRange
      else if line_size config < 8 \<or> line_size config > MAX_LINE_SIZE then Some LineRange
      else if (num_sets config AND (num_sets config - 1)) \<noteq> 0 then Some SetsNotPow2
      else if (line_size config AND (line_size config - 1)) \<noteq> 0 then Some LineNotPow2
      else None)"

text \<open>\<open>init_cache\<close> fills in the two bit widths and allocates \<open>num_sets\<close> sets of
  \<open>associativity\<close> lines, all invalid with tag 0 and counter 0. (A failed \<open>malloc\<close>
  ends the program; the model describes the runs in which allocation succeeds.)\<close>

definition empty_line :: CacheLine where
  "empty_line = \<lparr>valid = False, tag = 0, lru_counter = 0\<rparr>"

definition init_cache :: "CacheConfig \<Rightarrow> CacheLine list list \<times> CacheConfig" where
  "init_cache config =
     (let config' = config\<lparr>offset_bits := log2_int (line_size config),
                            index_bits := log2_int (num_sets config)\<rparr>
      in (replicate (nat (num_sets config'))
            (replicate (nat (associativity config')) empty_line),
          config'))"

section \<open>LRU bookkeeping\<close>

text \<open>The loop of \<open>update_lru\<close>, from index \<open>i\<close> on.\<close>

function update_lru_loop :: "CacheLine list \<Rightarrow> u32 \<Rightarrow> int \<Rightarrow> nat \<Rightarrow> CacheLine list" where
  "update_lru_loop lines accessed_counter assoc i =
     (if int i < assoc then
        update_lru_loop
          (if valid (lines ! i) \<and> lru_counter (lines ! i) > accessed_counter
           then lines[i := (lines ! i)\<lparr>lru_counter := lru_counter (lines ! i) - 1\<rparr>]
           else lines)
          accessed_counter assoc (i + 1)
      else lines)"
  by pat_completeness auto
termination
  by (relation "measure (\<lambda>(lines, c, assoc, i). nat (assoc - int i))") auto

declare update_lru_loop.simps [simp del]

definition update_lru :: "CacheLine list \<Rightarrow> int \<Rightarrow> nat \<Rightarrow> CacheLine list" where
  "update_lru lines assoc accessed_way =
     (let accessed_counter = lru_counter (lines ! accessed_way);
          lines' = update_lru_loop lines accessed_counter assoc 0
      in lines'[accessed_way :=
                  (lines' ! accessed_way)\<lparr>lru_counter := word_of_int (assoc - 1)\<rparr>])"

text \<open>The first loop of \<open>find_lru_victim\<close>: the first invalid way from \<open>i\<close> on, if any.\<close>

function find_invalid :: "CacheLine list \<Rightarrow> int \<Rightarrow> nat \<Rightarrow> nat option" where
  "find_invalid lines assoc i =
     (if int i < assoc then
        (if \<not> valid (lines ! i) then Some i else find_invalid lines assoc (i + 1))
      else None)"
  by pat_completeness auto
termination
  by (relation "measure (\<lambda>(lines, assoc, i). nat (assoc - int i))") auto

declare find_invalid.simps [simp del]

text \<open>The second loop, carrying \<open>lru_way\<close> and \<open>min_counter\<close>.\<close>

function find_min_loop :: "CacheLine list \<Rightarrow> int \<Rightarrow> nat \<Rightarrow> nat \<Rightarrow> u32 \<Rightarrow> nat" where
  "find_min_loop lines assoc i lru_way min_counter =
     (if int i < assoc then
        (if lru_counter (lines ! i) < min_counter
         then find_min_loop lines assoc (i + 1) i (lru_counter (lines ! i))
         else find_min_loop lines assoc (i + 1) lru_way min_counter)
      else lru_way)"
  by pat_completeness auto
termination
  by (relation "measure (\<lambda>(lines, assoc, i, w, m). nat (assoc - int i))") auto

declare find_min_loop.simps [simp del]

definition find_lru_victim :: "CacheLine list \<Rightarrow> int \<Rightarrow> nat" where
  "find_lru_victim lines assoc =
     (case find_invalid lines assoc 0 of
        Some i \<Rightarrow> i
      | None \<Rightarrow> find_min_loop lines assoc 1 0 (lru_counter (lines ! 0)))"

section \<open>One access\<close>

text \<open>The tag search of \<open>access_cache\<close>: \<open>Some i\<close> is \<open>hit = 1, hit_way = i\<close>;
  \<open>None\<close> is \<open>hit = 0, hit_way = -1\<close>.\<close>

function search_tag :: "CacheLine list \<Rightarrow> u32 \<Rightarrow> int \<Rightarrow> nat \<Rightarrow> nat option" where
  "search_tag lines t assoc i =
     (if int i < assoc then
        (if valid (lines ! i) \<and> tag (lines ! i) = t then Some i
         else search_tag lines t assoc (i + 1))
      else None)"
  by pat_completeness auto
termination
  by (relation "measure (\<lambda>(lines, t, assoc, i). nat (assoc - int i))") auto

declare search_tag.simps [simp del]

text \<open>The three address fields. \<open>(1 << n) - 1\<close> is computed on \<open>int\<close> and converted to
  \<open>unsigned int\<close> by the \<open>&\<close>.\<close>

definition addr_offset :: "CacheConfig \<Rightarrow> u32 \<Rightarrow> u32" where
  "addr_offset config address =
     address AND word_of_int (push_bit (nat (offset_bits config)) 1 - 1)"

definition addr_index :: "CacheConfig \<Rightarrow> u32 \<Rightarrow> u32" where
  "addr_index config address =
     drop_bit (nat (offset_bits config)) address
       AND word_of_int (push_bit (nat (index_bits config)) 1 - 1)"

definition addr_tag :: "CacheConfig \<Rightarrow> u32 \<Rightarrow> u32" where
  "addr_tag config address =
     drop_bit (nat (offset_bits config + index_bits config)) address"

definition print_line ::
  "CacheConfig \<Rightarrow> char \<Rightarrow> u32 \<Rightarrow> bool \<Rightarrow> int \<Rightarrow> sim_state \<Rightarrow> sim_state" where
  "print_line config access_type address hit refs s =
     s\<lparr>printed := printed s @
          [\<lparr>o_type = access_type, o_address = address,
            o_tag = addr_tag config address, o_index = addr_index config address,
            o_offset = addr_offset config address, o_hit = hit, o_memrefs = refs\<rparr>]\<rparr>"

definition set_row :: "nat \<Rightarrow> CacheLine list \<Rightarrow> sim_state \<Rightarrow> sim_state" where
  "set_row idx lines s = s\<lparr>cache := (cache s)[idx := lines]\<rparr>"

text \<open>The two tests on the access character.\<close>

definition is_read :: "char \<Rightarrow> bool" where
  "is_read access_type = (access_type = CHR ''R'' \<or> access_type = CHR ''r'')"

definition is_write :: "char \<Rightarrow> bool" where
  "is_write access_type = (access_type = CHR ''W'' \<or> access_type = CHR ''w'')"

text \<open>The search as \<open>access_cache\<close> runs it: in the set the address selects, for the
  tag of the address.\<close>

definition lookup_way :: "sim_state \<Rightarrow> CacheConfig \<Rightarrow> u32 \<Rightarrow> nat option" where
  "lookup_way s config address =
     search_tag (cache s ! unat (addr_index config address)) (addr_tag config address)
       (associativity config) 0"

definition access_cache :: "sim_state \<Rightarrow> CacheConfig \<Rightarrow> char \<Rightarrow> u32 \<Rightarrow> sim_state" where
  "access_cache s config access_type address =
     (let idx = unat (addr_index config address);
          t = addr_tag config address;
          row = cache s ! idx;
          found = lookup_way s config address;
          hit = (found \<noteq> None)
      in if is_read access_type then
           print_line config access_type address hit (if hit then 0 else 1)
             (case found of
                Some hit_way \<Rightarrow>
                  set_row idx (update_lru row (associativity config) hit_way)
                    (s\<lparr>stats := (stats s)\<lparr>hits := hits (stats s) + 1\<rparr>\<rparr>)
              | None \<Rightarrow>
                  (let victim_way = find_lru_victim row (associativity config);
                       row' = row[victim_way := (row ! victim_way)\<lparr>valid := True, tag := t\<rparr>]
                   in set_row idx (update_lru row' (associativity config) victim_way)
                        (s\<lparr>stats := (stats s)\<lparr>misses := misses (stats s) + 1,
                                                mem_reads := mem_reads (stats s) + 1\<rparr>\<rparr>)))
         else if is_write access_type then
           print_line config access_type address hit 1
             (case found of
                Some hit_way \<Rightarrow>
                  set_row idx (update_lru row (associativity config) hit_way)
                    (s\<lparr>stats := (stats s)\<lparr>mem_writes := mem_writes (stats s) + 1,
                                            hits := hits (stats s) + 1\<rparr>\<rparr>)
              | None \<Rightarrow>
                  s\<lparr>stats := (stats s)\<lparr>mem_writes := mem_writes (stats s) + 1,
                                        misses := misses (stats s) + 1\<rparr>\<rparr>)
         else s)"

section \<open>The trace loop of main\<close>

text \<open>A trace entry is a line that \<open>sscanf\<close> parsed into its three fields (other lines
  are skipped before anything is done with them). Entries with a size other than
  1, 2, 4, 8 or a misaligned address are skipped; every other entry goes to
  \<open>access_cache\<close>, whatever its access character.\<close>

type_synonym trace_entry = "char \<times> int \<times> u32"

fun trace_loop :: "sim_state \<Rightarrow> CacheConfig \<Rightarrow> trace_entry list \<Rightarrow> sim_state" where
  "trace_loop s config [] = s"
| "trace_loop s config ((access_type, sz, address) # rest) =
     (if sz \<noteq> 1 \<and> sz \<noteq> 2 \<and> sz \<noteq> 4 \<and> sz \<noteq> 8 then trace_loop s config rest
      else if (address AND word_of_int (sz - 1)) \<noteq> 0 then trace_loop s config rest
      else trace_loop (access_cache s config access_type address) config rest)"

definition stats0 :: CacheStats where
  "stats0 = \<lparr>hits = 0, misses = 0, mem_reads = 0, mem_writes = 0\<rparr>"

text \<open>\<open>main\<close> from the point where the three numbers of \<open>trace.config\<close> have been read:
  a rejected configuration ends the program (exit status 1) before \<open>init_cache\<close>.
  The banner, the table header and the summary that \<open>main\<close> prints around the loop are
  left out; the summary is computed from the final \<open>stats\<close>.\<close>

definition main_run :: "CacheConfig \<Rightarrow> trace_entry list \<Rightarrow> config_error + sim_state" where
  "main_run config trace =
     (case validate_config config of
        Some e \<Rightarrow> Inl e
      | None \<Rightarrow>
          (case init_cache config of (c, config') \<Rightarrow>
             Inr (trace_loop \<lparr>cache = c, stats = stats0, printed = []\<rparr> config' trace)))"

text \<open>The configuration and the state \<open>main\<close> hands to its trace loop.\<close>

definition run_config :: "CacheConfig \<Rightarrow> CacheConfig" where
  "run_config config = snd (init_cache config)"

definition initial_state :: "CacheConfig \<Rightarrow> sim_state" where
  "initial_state config = \<lparr>cache = fst (init_cache config), stats = stats0, printed = []\<rparr>"

section \<open>Invariants of a set\<close>

text \<open>What the specification says of every set: valid lines have pairwise different tags
  and pairwise different counters, and every counter of a valid line is at most
  \<open>associativity - 1\<close>.\<close>

definition row_ok :: "int \<Rightarrow> CacheLine list \<Rightarrow> bool" where
  "row_ok assoc row \<longleftrightarrow>
     (\<forall>i \<in> {0..<length row}. \<forall>j \<in> {0..<length row}.
        valid (row ! i) \<and> valid (row ! j) \<and> i \<noteq> j \<longrightarrow>
          tag (row ! i) \<noteq> tag (row ! j) \<and> lru_counter (row ! i) \<noteq> lru_counter (row ! j))
     \<and> (\<forall>i \<in> {0..<length row}.
          valid (row ! i) \<longrightarrow> int (unat (lru_counter (row ! i))) \<le> assoc - 1)"

text \<open>The invariant the proofs carry: invalid lines have counter 0, and the counter of a
  valid line is at least the number of invalid lines of its set.\<close>

definition invalid_count :: "CacheLine list \<Rightarrow> nat" where
  "invalid_count row = length (filter (\<lambda>l. \<not> valid l) row)"

definition row_inv :: "int \<Rightarrow> CacheLine list \<Rightarrow> bool" where
  "row_inv assoc row \<longleftrightarrow>
     int (length row) = assoc \<and> 0 < assoc \<and> assoc \<le> MAX_ASSOCIATIVITY \<and> row_ok assoc row
     \<and> (\<forall>i \<in> {0..<length row}. \<not> valid (row ! i) \<longrightarrow> lru_counter (row ! i) = 0)
     \<and> (\<forall>i \<in> {0..<length row}.
          valid (row ! i) \<longrightarrow> invalid_count row \<le> unat (lru_counter (row ! i)))"

text \<open>What a touch needs of the set it works on.\<close>

definition touch_pre :: "int \<Rightarrow> CacheLine list \<Rightarrow> nat \<Rightarrow> bool" where
  "touch_pre A r w \<longleftrightarrow>
     int (length r) = A \<and> 0 < A \<and> A \<le> MAX_ASSOCIATIVITY \<and> w < length r \<and> valid (r ! w)
     \<and> unat (lru_counter (r ! w)) < length r
     \<and> (\<forall>i < length r. \<not> valid (r ! i) \<longrightarrow> lru_counter (r ! i) = 0)
     \<and> (\<forall>i < length r. \<forall>j < length r.
           valid (r ! i) \<and> valid (r ! j) \<and> i \<noteq> j \<longrightarrow> tag (r ! i) \<noteq> tag (r ! j))
     \<and> (\<forall>i < length r. i \<noteq> w \<and> valid (r ! i) \<longrightarrow>
           unat (lru_counter (r ! i)) \<noteq> unat (lru_counter (r ! w))
           \<and> unat (lru_counter (r ! i)) < length r
           \<and> invalid_count r \<le> unat (lru_counter (r ! i))
           \<and> (unat (lru_counter (r ! w)) < unat (lru_counter (r ! i))
                \<longrightarrow> invalid_count r < unat (lru_counter (r ! i))))
     \<and> (\<forall>i < length r. \<forall>j < length r.
           i \<noteq> w \<and> j \<noteq> w \<and> i \<noteq> j \<and> valid (r ! i) \<and> valid (r ! j) \<longrightarrow>
           unat (lru_counter (r ! i)) \<noteq> unat (lru_counter (r ! j)))"

definition cache_inv :: "CacheConfig \<Rightarrow> CacheLine list list \<Rightarrow> bool" where
  "cache_inv config c \<longleftrightarrow> (\<forall>row \<in> set c. row_inv (associativity config) row)"

section \<open>Statistics against the printed lines\<close>

text \<open>A trace entry reaches \<open>access_cache\<close> when it passes the two checks of the trace
  loop; it is processed when it moreover is a read or a write.\<close>

definition reaches_core :: "trace_entry \<Rightarrow> bool" where
  "reaches_core e =
     (case e of (access_type, sz, address) \<Rightarrow>
        (sz = 1 \<or> sz = 2 \<or> sz = 4 \<or> sz = 8) \<and> address AND word_of_int (sz - 1) = 0)"

definition processed :: "trace_entry \<Rightarrow> bool" where
  "processed e = (reaches_core e \<and> (is_read (fst e) \<or> is_write (fst e)))"

text \<open>The four counters, read as signed numbers, equal what the printed lines add up to:
  hit lines, miss lines, memory references of read lines, memory references of write
  lines.\<close>

definition stats_agree :: "sim_state \<Rightarrow> bool" where
  "stats_agree s \<longleftrightarrow>
     sint (hits (stats s)) = int (length (filter o_hit (printed s)))
     \<and> sint (misses (stats s)) = int (length (filter (\<lambda>l. \<not> o_hit l) (printed s)))
     \<and> sint (mem_reads (stats s))
         = sum_list (map o_memrefs (filter (\<lambda>l. is_read (o_type l)) (printed s)))
     \<and> sint (mem_writes (stats s))
         = sum_list (map o_memrefs (filter (\<lambda>l. is_write (o_type l)) (printed s)))"

text \<open>Counter by counter, \<open>a\<close> is at most \<open>b\<close> as signed numbers.\<close>

definition stats_le :: "CacheStats \<Rightarrow> CacheStats \<Rightarrow> bool" where
  "stats_le a b \<longleftrightarrow>
     sint (hits a) \<le> sint (hits b) \<and> sint (misses a) \<le> sint (misses b)
     \<and> sint (mem_reads a) \<le> sint (mem_reads b)
     \<and> sint (mem_writes a) \<le> sint (mem_writes b)"

text \<open>Every printed line reports 0 or 1 memory references.\<close>

definition lines_ok :: "sim_state \<Rightarrow> bool" where
  "lines_ok s \<longleftrightarrow> list_all (\<lambda>l. o_memrefs l = 0 \<or> o_memrefs l = 1) (printed s)"

section \<open>When each way was last touched\<close>

text \<open>
  A device of the specification, not of the program: the way \<open>access_cache\<close> hands to
  \<open>update_lru\<close> for an access (the way that hit, or the victim of a read miss; none for a
  write miss or an ignored access), and, for a trace, the position (counted from 1) of
  the last trace entry that touched each way of each set, 0 for a way never touched.
\<close>

definition touched_way :: "sim_state \<Rightarrow> CacheConfig \<Rightarrow> char \<Rightarrow> u32 \<Rightarrow> nat option" where
  "touched_way s config access_type address =
     (case lookup_way s config address of
        Some hit_way \<Rightarrow>
          if is_read access_type \<or> is_write access_type then Some hit_way else None
      | None \<Rightarrow>
          if is_read access_type
          then Some (find_lru_victim (cache s ! unat (addr_index config address))
                       (associativity config))
          else None)"

type_synonym touch_times = "nat \<Rightarrow> nat \<Rightarrow> nat"

definition record_touch ::
  "sim_state \<Rightarrow> CacheConfig \<Rightarrow> char \<Rightarrow> u32 \<Rightarrow> nat \<Rightarrow> touch_times \<Rightarrow> touch_times" where
  "record_touch s config access_type address n lt =
     (case touched_way s config access_type address of
        None \<Rightarrow> lt
      | Some w \<Rightarrow>
          lt(unat (addr_index config address) :=
               (lt (unat (addr_index config address)))(w := n)))"

fun trace_touches ::
  "sim_state \<Rightarrow> CacheConfig \<Rightarrow> nat \<Rightarrow> touch_times \<Rightarrow> trace_entry list \<Rightarrow> touch_times" where
  "trace_touches s config n lt [] = lt"
| "trace_touches s config n lt ((access_type, sz, address) # rest) =
     (if sz \<noteq> 1 \<and> sz \<noteq> 2 \<and> sz \<noteq> 4 \<and> sz \<noteq> 8 then trace_touches s config (n + 1) lt rest
      else if (address AND word_of_int (sz - 1)) \<noteq> 0 then trace_touches s config (n + 1) lt rest
      else trace_touches (access_cache s config access_type address) config (n + 1)
             (record_touch s config access_type address (n + 1) lt) rest)"

definition last_touch :: "CacheConfig \<Rightarrow> trace_entry list \<Rightarrow> touch_times" where
  "last_touch config tr =
     trace_touches (initial_state config) (run_config config) 0 (\<lambda>k w. 0) tr"

text \<open>Among the valid lines of every set, a larger counter means a later last touch.\<close>

definition order_inv :: "CacheLine list list \<Rightarrow> touch_times \<Rightarrow> nat \<Rightarrow> bool" where
  "order_inv c lt n \<longleftrightarrow>
     (\<forall>k w. lt k w \<le> n)
     \<and> (\<forall>k < length c. \<forall>i < length (c ! k). \<forall>j < length (c ! k).
           valid (c ! k ! i) \<and> valid (c ! k ! j) \<longrightarrow>
             (unat (lru_counter (c ! k ! i)) < unat (lru_counter (c ! k ! j))
              \<longleftrightarrow> lt k i < lt k j))"

section \<open>Examples\<close>

text \<open>The geometry of the specification's scenario (the two bit widths are filled in by
  \<open>init_cache\<close>), and a full two-way set.\<close>

definition demo_config :: CacheConfig where
  "demo_config =
     \<lparr>num_sets = 4, associativity = 2, line_size = 16, offset_bits = 0, index_bits = 0\<rparr>"

definition demo_row :: "CacheLine list" where
  "demo_row = [\<lparr>valid = True, tag = 7, lru_counter = 0\<rparr>,
               \<lparr>valid = True, tag = 9, lru_counter = 1\<rparr>]"

text \<open>Three reads that fill set 0 and touch its first line again.\<close>

definition demo_trace :: "trace_entry list" where
  "demo_trace = [(CHR ''R'', 4, 0x00), (CHR ''R'', 4, 0x40), (CHR ''R'', 4, 0x00)]"

definition demo_state :: sim_state where
  "demo_state = trace_loop (initial_state demo_config) (run_config demo_config) demo_trace"

text \<open>The three reads of the specification's scenario, and three reads whose addresses
  do share index 0.\<close>

definition scenario_trace :: "trace_entry list" where
  "scenario_trace = [(CHR ''R'', 4, 0x00), (CHR ''R'', 4, 0x10), (CHR ''R'', 4, 0x20)]"

definition scenario_state :: sim_state where
  "scenario_state =
     trace_loop (initial_state demo_config) (run_config demo_config) scenario_trace"

definition eviction_trace :: "trace_entry list" where
  "eviction_trace = [(CHR ''R'', 4, 0x00), (CHR ''R'', 4, 0x40), (CHR ''R'', 4, 0x80)]"

definition eviction_state :: sim_state where
  "eviction_state =
     trace_loop (initial_state demo_config) (run_config demo_config) eviction_trace"

text \<open>A read miss, a write hit, a write miss, then three entries that are not processed:
  an unknown access character, a size that is not allowed, a misaligned address.\<close>

definition mixed_trace :: "trace_entry list" where
  "mixed_trace = [(CHR ''R'', 1, 0x00), (CHR ''W'', 1, 0x00), (CHR ''W'', 1, 0x40),
                  (CHR ''X'', 1, 0x40), (CHR ''R'', 3, 0x00), (CHR ''R'', 4, 0x42)]"

definition mixed_state :: sim_state where
  "mixed_state = trace_loop (initial_state demo_config) (run_config demo_config) mixed_trace"

text \<open>The same one-byte read of address 0, \<open>2^31\<close> times: a miss and then hits that
  bring \<open>hits\<close> to \<open>INT_MAX\<close>.\<close>

definition first_read :: trace_entry where
  "first_read = (CHR ''R'', 1, 0)"

definition brim_trace :: "trace_entry list" where
  "brim_trace = replicate (2 ^ 31) first_read"

definition brim_state :: sim_state where
  "brim_state = trace_loop (initial_state demo_config) (run_config demo_config) brim_trace"

section \<open>The loops, characterised\<close>

lemma update_lru_loop_length [simp]:
  "length (update_lru_loop lines c assoc i) = length lines"
proof (induction lines c assoc i rule: update_lru_loop.induct)
  case (1 lines c assoc i)
  show ?case
    by (subst update_lru_loop.simps) (use 1 in \<open>auto\<close>)
qed

lemma update_lru_loop_nth:
  "j < length lines \<Longrightarrow>
   update_lru_loop lines c assoc i ! j =
     (if i \<le> j \<and> int j < assoc \<and> valid (lines ! j) \<and> c < lru_counter (lines ! j)
      then (lines ! j)\<lparr>lru_counter := lru_counter (lines ! j) - 1\<rparr>
      else lines ! j)"
proof (induction lines c assoc i rule: update_lru_loop.induct)
  case (1 lines c assoc i)
  show ?case
  proof (cases "int i < assoc")
    case False
    then show ?thesis by (subst update_lru_loop.simps) auto
  next
    case True
    define lines' where "lines' =
      (if valid (lines ! i) \<and> c < lru_counter (lines ! i)
       then lines[i := (lines ! i)\<lparr>lru_counter := lru_counter (lines ! i) - 1\<rparr>]
       else lines)"
    have unfold: "update_lru_loop lines c assoc i = update_lru_loop lines' c assoc (i + 1)"
      using True by (subst update_lru_loop.simps) (simp add: lines'_def)
    have len: "j < length lines'" using "1.prems" by (simp add: lines'_def)
    have IH: "update_lru_loop lines' c assoc (i + 1) ! j =
       (if i + 1 \<le> j \<and> int j < assoc \<and> valid (lines' ! j) \<and> c < lru_counter (lines' ! j)
        then (lines' ! j)\<lparr>lru_counter := lru_counter (lines' ! j) - 1\<rparr>
        else lines' ! j)"
      using "1.IH"[OF True len[unfolded lines'_def]] by (simp add: lines'_def)
    show ?thesis
    proof (cases "j = i")
      case True
      then show ?thesis using IH "1.prems" \<open>int i < assoc\<close>
        unfolding unfold by (simp add: lines'_def)
    next
      case False
      then have "lines' ! j = lines ! j" by (simp add: lines'_def)
      then show ?thesis using IH False unfolding unfold by auto
    qed
  qed
qed

lemma search_tag_Some:
  "search_tag lines t assoc i = Some w \<Longrightarrow>
     i \<le> w \<and> int w < assoc \<and> valid (lines ! w) \<and> tag (lines ! w) = t
     \<and> (\<forall>j. i \<le> j \<and> j < w \<longrightarrow> \<not> (valid (lines ! j) \<and> tag (lines ! j) = t))"
proof (induction lines t assoc i rule: search_tag.induct)
  case (1 lines t assoc i)
  from "1.prems" have lt: "int i < assoc"
    by (subst (asm) search_tag.simps) (auto split: if_splits)
  show ?case
  proof (cases "valid (lines ! i) \<and> tag (lines ! i) = t")
    case True
    with lt "1.prems" have "w = i" by (subst (asm) search_tag.simps) auto
    with True lt show ?thesis by auto
  next
    case False
    with lt "1.prems" have "search_tag lines t assoc (i + 1) = Some w"
      by (subst (asm) search_tag.simps) auto
    with "1.IH" lt False have IH: "i + 1 \<le> w \<and> int w < assoc \<and> valid (lines ! w) \<and> tag (lines ! w) = t
     \<and> (\<forall>j. i + 1 \<le> j \<and> j < w \<longrightarrow> \<not> (valid (lines ! j) \<and> tag (lines ! j) = t))" by blast
    show ?thesis
    proof (intro conjI allI impI)
      fix j assume "i \<le> j \<and> j < w"
      then show "\<not> (valid (lines ! j) \<and> tag (lines ! j) = t)"
        using IH False by (cases "j = i") auto
    qed (use IH in auto)
  qed
qed

lemma search_tag_None:
  "search_tag lines t assoc i = None \<Longrightarrow>
     (\<forall>j. i \<le> j \<and> int j < assoc \<longrightarrow> \<not> (valid (lines ! j) \<and> tag (lines ! j) = t))"
proof (induction lines t assoc i rule: search_tag.induct)
  case (1 lines t assoc i)
  show ?case
  proof (cases "int i < assoc")
    case False then show ?thesis by auto
  next
    case True
    with "1.prems" have nm: "\<not> (valid (lines ! i) \<and> tag (lines ! i) = t)"
      and rec: "search_tag lines t assoc (i + 1) = None"
      by (subst (asm) search_tag.simps, auto split: if_splits)+
    from "1.IH" True nm rec have IH: "\<forall>j. i + 1 \<le> j \<and> int j < assoc \<longrightarrow> \<not> (valid (lines ! j) \<and> tag (lines ! j) = t)"
      by blast
    show ?thesis
    proof (intro allI impI)
      fix j assume "i \<le> j \<and> int j < assoc"
      then show "\<not> (valid (lines ! j) \<and> tag (lines ! j) = t)"
        using IH nm by (cases "j = i") auto
    qed
  qed
qed

lemma find_invalid_Some:
  "find_invalid lines assoc i = Some w \<Longrightarrow>
     i \<le> w \<and> int w < assoc \<and> \<not> valid (lines ! w) \<and> (\<forall>j. i \<le> j \<and> j < w \<longrightarrow> valid (lines ! j))"
proof (induction lines assoc i rule: find_invalid.induct)
  case (1 lines assoc i)
  from "1.prems" have lt: "int i < assoc"
    by (subst (asm) find_invalid.simps) (auto split: if_splits)
  show ?case
  proof (cases "valid (lines ! i)")
    case False
    with lt "1.prems" have "w = i" by (subst (asm) find_invalid.simps) auto
    with False lt show ?thesis by auto
  next
    case True
    with lt "1.prems" have "find_invalid lines assoc (i + 1) = Some w"
      by (subst (asm) find_invalid.simps) auto
    with "1.IH" lt True have IH: "i + 1 \<le> w \<and> int w < assoc \<and> \<not> valid (lines ! w)
       \<and> (\<forall>j. i + 1 \<le> j \<and> j < w \<longrightarrow> valid (lines ! j))" by blast
    show ?thesis
    proof (intro conjI allI impI)
      fix j assume "i \<le> j \<and> j < w"
      then show "valid (lines ! j)"
        using IH True by (cases "j = i") auto
    qed (use IH in auto)
  qed
qed

lemma find_invalid_None:
  "find_invalid lines assoc i = None \<Longrightarrow> (\<forall>j. i \<le> j \<and> int j < assoc \<longrightarrow> valid (lines ! j))"
proof (induction lines assoc i rule: find_invalid.induct)
  case (1 lines assoc i)
  show ?case
  proof (cases "int i < assoc")
    case False then show ?thesis by auto
  next
    case True
    with "1.prems" have nm: "valid (lines ! i)"
      and rec: "find_invalid lines assoc (i + 1) = None"
      by (subst (asm) find_invalid.simps, auto split: if_splits)+
    from "1.IH" True nm rec have IH: "\<forall>j. i + 1 \<le> j \<and> int j < assoc \<longrightarrow> valid (lines ! j)"
      by blast
    show ?thesis
    proof (intro allI impI)
      fix j assume "i \<le> j \<and> int j < assoc"
      then show "valid (lines ! j)"
        using IH nm by (cases "j = i") auto
    qed
  qed
qed

lemma find_min_loop_spec:
  "lru_way < i \<Longrightarrow> min_counter = lru_counter (lines ! lru_way) \<Longrightarrow>
   (\<forall>j < i. min_counter \<le> lru_counter (lines ! j)) \<Longrightarrow>
   (\<forall>j < lru_way. min_counter < lru_counter (lines ! j)) \<Longrightarrow>
   (let r = find_min_loop lines assoc i lru_way min_counter in
      (r = lru_way \<or> (i \<le> r \<and> int r < assoc))
      \<and> (\<forall>j. j < i \<or> int j < assoc \<longrightarrow> lru_counter (lines ! r) \<le> lru_counter (lines ! j))
      \<and> (\<forall>j < r. lru_counter (lines ! r) < lru_counter (lines ! j)))"
proof (induction lines assoc i lru_way min_counter rule: find_min_loop.induct)
  case (1 lines assoc i lru_way min_counter)
  show ?case
  proof (cases "int i < assoc")
    case False
    then have "find_min_loop lines assoc i lru_way min_counter = lru_way"
      by (subst find_min_loop.simps) simp
    with False 1(3-6) show ?thesis by (auto simp: Let_def)
  next
    case True
    show ?thesis
    proof (cases "lru_counter (lines ! i) < min_counter")
      case less: True
      have eq: "find_min_loop lines assoc i lru_way min_counter
                = find_min_loop lines assoc (i + 1) i (lru_counter (lines ! i))"
        using True less by (subst find_min_loop.simps) simp
      have a: "\<forall>j < i + 1. lru_counter (lines ! i) \<le> lru_counter (lines ! j)"
        using 1(5) less by (auto simp: less_Suc_eq)
      have b: "\<forall>j < i. lru_counter (lines ! i) < lru_counter (lines ! j)"
        using 1(5) less by auto
      from "1.IH"(1)[OF True less _ refl a b] True
      show ?thesis unfolding eq Let_def by (auto simp: less_Suc_eq_le)
    next
      case ge: False
      have eq: "find_min_loop lines assoc i lru_way min_counter
                = find_min_loop lines assoc (i + 1) lru_way min_counter"
        using True ge by (subst find_min_loop.simps) simp
      have a: "\<forall>j < i + 1. min_counter \<le> lru_counter (lines ! j)"
        using 1(5) ge by (auto simp: less_Suc_eq)
      from "1.IH"(2)[OF True ge _ 1(4) a 1(6)] 1(3)
      show ?thesis unfolding eq Let_def by (auto simp: less_Suc_eq_le)
    qed
  qed
qed


section \<open>Arithmetic of the geometry\<close>

lemma unat_assoc_minus_1:
  "0 < n \<Longrightarrow> n \<le> 2 ^ 32 \<Longrightarrow> unat (word_of_int (int n - 1) :: u32) = n - 1"
proof -
  assume n: "0 < n" "n \<le> 2 ^ 32"
  then have "int n - 1 = int (n - 1)" by linarith
  then have e: "(word_of_int (int n - 1) :: u32) = of_nat (n - 1)" by (simp only: of_int_of_nat_eq)
  have "n - 1 < 2 ^ LENGTH(32)" using n by simp
  then show ?thesis unfolding e by (rule of_nat_inverse[OF refl])
qed

lemma low_bits_mask: "(word_of_int (push_bit k 1 - 1) :: u32) = mask k"
  by (simp add: mask_eq_decr_exp)

lemma unat_and_low_bits:
  "unat ((x::u32) AND word_of_int (push_bit k 1 - 1)) < 2 ^ k"
proof -
  have "x AND mask k = take_bit k x" by (simp only: take_bit_eq_mask)
  then have "unat (x AND mask k) = take_bit k (unat x)"
    by (simp only: unsigned_take_bit_eq)
  then have "unat (x AND mask k) = unat x mod 2 ^ k"
    by (simp only: take_bit_eq_mod)
  then show ?thesis unfolding low_bits_mask by simp
qed

lemma log2_loop_pow2: "log2_loop (2 ^ k) b = b + int k"
proof (induction k arbitrary: b)
  case 0
  show ?case by (subst log2_loop.simps) simp
next
  case (Suc k)
  have "(1::int) < 2 ^ Suc k" by (rule one_less_power) simp_all
  then have "log2_loop (2 ^ Suc k) b = log2_loop (2 ^ k) (b + 1)"
    by (subst log2_loop.simps) (simp add: drop_bit_eq_div)
  then show ?case by (simp add: Suc.IH)
qed

lemma pow2_test_nat:
  "0 < n \<Longrightarrow> (int n AND (int n - 1) = 0) \<longleftrightarrow> (\<exists>k. n = 2 ^ k)"
proof (induction n rule: less_induct)
  case (less n)
  show ?case
  proof (cases "even n")
    case True
    then obtain m where m: "n = 2 * m" by (auto elim: evenE)
    with less.prems have mpos: "0 < m" "m < n" by auto
    have half: "(2 * int m - 1) div 2 = int m - 1" by linarith
    have e: "int n = 2 * int m" using m by simp
    have "int n AND (int n - 1) = 2 * (int m AND (int m - 1))"
      unfolding e by (subst and_int_rec) (simp add: half)
    then have "(int n AND (int n - 1) = 0) \<longleftrightarrow> (\<exists>k. m = 2 ^ k)"
      using less.IH[OF mpos(2) mpos(1)] by simp
    also have "\<dots> \<longleftrightarrow> (\<exists>k. n = 2 ^ k)"
    proof
      assume "\<exists>k. m = 2 ^ k"
      then obtain k where "m = 2 ^ k" ..
      then have "n = 2 ^ Suc k" using m by simp
      then show "\<exists>k. n = 2 ^ k" ..
    next
      assume "\<exists>k. n = 2 ^ k"
      then obtain k where k: "n = 2 ^ k" ..
      with True less.prems have "k \<noteq> 0" by (cases k) auto
      then obtain k' where "k = Suc k'" by (cases k) auto
      with k m have "m = 2 ^ k'" by simp
      then show "\<exists>k. m = 2 ^ k" ..
    qed
    finally show ?thesis .
  next
    case False
    then obtain m where m: "n = 2 * m + 1" by (auto elim: oddE)
    have e: "int n = 2 * int m + 1" using m by simp
    have "int n AND (int n - 1) = 2 * int m"
      unfolding e by (subst and_int_rec) simp
    then have "(int n AND (int n - 1) = 0) \<longleftrightarrow> m = 0" by simp
    also have "\<dots> \<longleftrightarrow> (\<exists>k. n = 2 ^ k)"
    proof
      assume "m = 0"
      then have "n = 2 ^ 0" using m by simp
      then show "\<exists>k. n = 2 ^ k" ..
    next
      assume "\<exists>k. n = 2 ^ k"
      then obtain k where k: "n = 2 ^ k" ..
      with False have "k = 0" by (cases k) auto
      with k m show "m = 0" by simp
    qed
    finally show ?thesis .
  qed
qed

lemma pow2_test:
  "0 < (n::int) \<Longrightarrow> (n AND (n - 1) = 0) \<longleftrightarrow> (\<exists>k. n = 2 ^ k)"
proof -
  assume n: "0 < n"
  then have eq: "n = int (nat n)" and pos: "0 < nat n" by auto
  have "(n AND (n - 1) = 0) \<longleftrightarrow> (\<exists>k. nat n = 2 ^ k)"
    using pow2_test_nat[OF pos] eq by simp
  also have "\<dots> \<longleftrightarrow> (\<exists>k. n = 2 ^ k)"
  proof
    assume "\<exists>k. nat n = 2 ^ k"
    then obtain k where "nat n = 2 ^ k" ..
    then have "int (nat n) = int (2 ^ k)" by simp
    with eq have "n = 2 ^ k" by simp
    then show "\<exists>k. n = 2 ^ k" ..
  next
    assume "\<exists>k. n = 2 ^ k"
    then obtain k where "n = 2 ^ k" ..
    then have "nat n = 2 ^ k" by (simp add: nat_power_eq)
    then show "\<exists>k. nat n = 2 ^ k" ..
  qed
  finally show ?thesis .
qed



section \<open>The touch, line by line\<close>

lemma update_lru_length [simp]: "length (update_lru lines assoc way) = length lines"
  by (simp add: update_lru_def Let_def)

lemma update_lru_nth:
  assumes "int (length lines) = assoc" and "way < length lines" and "i < length lines"
  shows "update_lru lines assoc way ! i =
     (lines ! i)\<lparr>lru_counter :=
        (if i = way then word_of_int (assoc - 1)
         else if valid (lines ! i) \<and> lru_counter (lines ! way) < lru_counter (lines ! i)
           then lru_counter (lines ! i) - 1
         else lru_counter (lines ! i))\<rparr>"
proof -
  from assms have ia: "int i < assoc" by auto
  show ?thesis
    using assms(2,3) ia
    by (simp add: update_lru_def Let_def nth_list_update update_lru_loop_nth)
qed

text \<open>The counters read as numbers.\<close>

lemma update_lru_unat:
  assumes "int (length lines) = assoc" and "0 < assoc" and "assoc \<le> MAX_ASSOCIATIVITY"
    and "way < length lines" and "i < length lines"
  shows "unat (lru_counter (update_lru lines assoc way ! i)) =
     (if i = way then length lines - 1
      else if valid (lines ! i)
              \<and> unat (lru_counter (lines ! way)) < unat (lru_counter (lines ! i))
        then unat (lru_counter (lines ! i)) - 1
      else unat (lru_counter (lines ! i)))"
proof -
  have n: "0 < length lines" "length lines \<le> 2 ^ 32"
    using assms(1-3) by (auto simp: MAX_ASSOCIATIVITY_def)
  have top: "unat (word_of_int (assoc - 1) :: u32) = length lines - 1"
    using unat_assoc_minus_1[OF n] assms(1) by simp
  have dec: "unat (lru_counter (lines ! i) - 1) = unat (lru_counter (lines ! i)) - 1"
    if "lru_counter (lines ! way) < lru_counter (lines ! i)"
  proof -
    from that have "lru_counter (lines ! i) \<noteq> 0" by (auto simp: word_less_nat_alt)
    then show ?thesis by (rule unat_minus_one)
  qed
  show ?thesis
    using update_lru_nth[OF assms(1,4,5)] top dec
    by (auto simp: word_less_nat_alt)
qed

lemma update_lru_valid:
  "int (length lines) = assoc \<Longrightarrow> way < length lines \<Longrightarrow> i < length lines \<Longrightarrow>
   valid (update_lru lines assoc way ! i) = valid (lines ! i)"
  by (simp add: update_lru_nth)

lemma update_lru_tag:
  "int (length lines) = assoc \<Longrightarrow> way < length lines \<Longrightarrow> i < length lines \<Longrightarrow>
   tag (update_lru lines assoc way ! i) = tag (lines ! i)"
  by (simp add: update_lru_nth)

lemma invalid_count_cong:
  assumes "map valid r = map valid r'"
  shows "invalid_count r = invalid_count r'"
proof -
  have e: "invalid_count r = length (filter Not (map valid r))" for r
    by (simp add: invalid_count_def filter_map comp_def)
  show ?thesis by (simp only: e assms)
qed

lemma invalid_count_update_lru:
  assumes "int (length lines) = assoc" and "way < length lines"
  shows "invalid_count (update_lru lines assoc way) = invalid_count lines"
  by (rule invalid_count_cong) (use assms in \<open>auto simp: list_eq_iff_nth_eq update_lru_valid\<close>)

lemma invalid_count_fill:
  assumes "v < length r" and "\<not> valid (r ! v)" and "valid y"
  shows "Suc (invalid_count (r[v := y])) = invalid_count r"
proof -
  have "r = take v r @ r ! v # drop (Suc v) r" using assms(1) by (rule id_take_nth_drop)
  then have a: "invalid_count r =
      invalid_count (take v r) + 1 + invalid_count (drop (Suc v) r)"
    using assms(2) unfolding invalid_count_def
    by (metis (mono_tags, lifting) One_nat_def add.assoc filter.simps(2) filter_append
        length_Cons length_append plus_1_eq_Suc)
  have "r[v := y] = take v r @ y # drop (Suc v) r" using assms(1) by (rule upd_conv_take_nth_drop)
  then have "invalid_count (r[v := y]) = invalid_count (take v r) + invalid_count (drop (Suc v) r)"
    using assms(3) by (simp add: invalid_count_def)
  with a show ?thesis by simp
qed

lemma invalid_count_replace:
  assumes "v < length r" and "valid (r ! v)" and "valid y"
  shows "invalid_count (r[v := y]) = invalid_count r"
  by (rule invalid_count_cong) (use assms in \<open>auto simp: list_eq_iff_nth_eq nth_list_update\<close>)

lemma invalid_count_less:
  assumes "w < length r" and "valid (r ! w)"
  shows "invalid_count r < length r"
proof -
  have "r ! w \<in> set r" using assms(1) by simp
  then show ?thesis using assms(2) unfolding invalid_count_def
    by (metis (mono_tags, lifting) length_filter_less)
qed

lemma invalid_count_pos:
  assumes "w < length r" and "\<not> valid (r ! w)"
  shows "0 < invalid_count r"
proof -
  have "r ! w \<in> set (filter (\<lambda>l. \<not> valid l) r)" using assms by simp
  then show ?thesis unfolding invalid_count_def by (rule length_pos_if_in_set)
qed


section \<open>Counters as ranks\<close>

lemma rank_shift:
  fixes x x' :: "nat \<Rightarrow> nat" and V :: "nat \<Rightarrow> bool"
  assumes step: "\<And>i. i < n \<Longrightarrow>
      x' i = (if i = w then n - 1 else if V i \<and> x w < x i then x i - 1 else x i)"
    and w: "w < n" and cw: "x w < n" and m: "m < n"
    and oth: "\<And>i. i < n \<Longrightarrow> i \<noteq> w \<Longrightarrow> V i \<Longrightarrow>
        x i \<noteq> x w \<and> x i < n \<and> m \<le> x i \<and> (x w < x i \<longrightarrow> m < x i)"
    and dist: "\<And>i j. i < n \<Longrightarrow> j < n \<Longrightarrow> i \<noteq> w \<Longrightarrow> j \<noteq> w \<Longrightarrow> i \<noteq> j \<Longrightarrow> V i \<Longrightarrow> V j \<Longrightarrow>
        x i \<noteq> x j"
  shows rank_range: "\<And>i. i < n \<Longrightarrow> V i \<or> i = w \<Longrightarrow> m \<le> x' i \<and> x' i < n"
    and rank_top: "\<And>i. i < n \<Longrightarrow> i \<noteq> w \<Longrightarrow> V i \<Longrightarrow> x' i < x' w"
    and rank_order: "\<And>i j. i < n \<Longrightarrow> j < n \<Longrightarrow> i \<noteq> w \<Longrightarrow> j \<noteq> w \<Longrightarrow> V i \<Longrightarrow> V j \<Longrightarrow>
        (x' i < x' j \<longleftrightarrow> x i < x j)"
    and rank_distinct: "\<And>i j. i < n \<Longrightarrow> j < n \<Longrightarrow> i \<noteq> j \<Longrightarrow> (V i \<or> i = w) \<Longrightarrow> (V j \<or> j = w) \<Longrightarrow>
        x' i \<noteq> x' j"
proof -
  have xw: "x' w = n - 1" using step[OF w] by simp
  have other: "x' i = (if x w < x i then x i - 1 else x i)" if "i < n" "i \<noteq> w" "V i" for i
    using step[OF that(1)] that by simp
  show range: "m \<le> x' i \<and> x' i < n" if "i < n" "V i \<or> i = w" for i
  proof (cases "i = w")
    case True
    then show ?thesis using xw m w by simp
  next
    case False
    with that have "V i" by simp
    from other[OF that(1) False this] oth[OF that(1) False this]
    show ?thesis by auto
  qed
  show top: "x' i < x' w" if "i < n" "i \<noteq> w" "V i" for i
    using other[OF that] oth[OF that] xw cw by auto
  show order: "(x' i < x' j \<longleftrightarrow> x i < x j)"
    if "i < n" "j < n" "i \<noteq> w" "j \<noteq> w" "V i" "V j" for i j
    using other[OF that(1,3,5)] other[OF that(2,4,6)] oth[OF that(1,3,5)] oth[OF that(2,4,6)]
    by auto
  show "x' i \<noteq> x' j" if "i < n" "j < n" "i \<noteq> j" "V i \<or> i = w" "V j \<or> j = w" for i j
  proof (cases "i = w")
    case True
    with that have "j \<noteq> w" "V j" by auto
    from top[OF that(2) this] True show ?thesis by simp
  next
    case iw: False
    with that have vi: "V i" by simp
    show ?thesis
    proof (cases "j = w")
      case True
      from top[OF that(1) iw vi] True show ?thesis by simp
    next
      case jw: False
      with that have vj: "V j" by simp
      from dist[OF that(1,2) iw jw that(3) vi vj] order[OF that(1,2) iw jw vi vj]
        order[OF that(2,1) jw iw vj vi]
      show ?thesis by auto
    qed
  qed
qed

lemma row_invI:
  assumes "int (length r) = A" "0 < A" "A \<le> MAX_ASSOCIATIVITY"
    and "\<And>i j. i < length r \<Longrightarrow> j < length r \<Longrightarrow> valid (r ! i) \<Longrightarrow> valid (r ! j) \<Longrightarrow> i \<noteq> j \<Longrightarrow>
           tag (r ! i) \<noteq> tag (r ! j)"
    and "\<And>i j. i < length r \<Longrightarrow> j < length r \<Longrightarrow> valid (r ! i) \<Longrightarrow> valid (r ! j) \<Longrightarrow> i \<noteq> j \<Longrightarrow>
           unat (lru_counter (r ! i)) \<noteq> unat (lru_counter (r ! j))"
    and "\<And>i. i < length r \<Longrightarrow> valid (r ! i) \<Longrightarrow>
           invalid_count r \<le> unat (lru_counter (r ! i)) \<and> unat (lru_counter (r ! i)) < length r"
    and "\<And>i. i < length r \<Longrightarrow> \<not> valid (r ! i) \<Longrightarrow> lru_counter (r ! i) = 0"
  shows "row_inv A r"
  unfolding row_inv_def row_ok_def
proof (intro conjI ballI impI)
  fix i assume "i \<in> {0..<length r}" "valid (r ! i)"
  then have "unat (lru_counter (r ! i)) < length r" using assms(6) by simp
  then show "int (unat (lru_counter (r ! i))) \<le> A - 1" using assms(1) by linarith
next
  fix i j assume "i \<in> {0..<length r}" "j \<in> {0..<length r}"
    "valid (r ! i) \<and> valid (r ! j) \<and> i \<noteq> j"
  then have "unat (lru_counter (r ! i)) \<noteq> unat (lru_counter (r ! j))"
    using assms(5)[of i j] by simp
  then show "lru_counter (r ! i) \<noteq> lru_counter (r ! j)" by auto
qed (use assms in \<open>auto\<close>)

lemma row_invD:
  assumes "row_inv A r"
  shows "int (length r) = A" "0 < A" "A \<le> MAX_ASSOCIATIVITY"
    and "\<And>i j. i < length r \<Longrightarrow> j < length r \<Longrightarrow> valid (r ! i) \<Longrightarrow> valid (r ! j) \<Longrightarrow> i \<noteq> j \<Longrightarrow>
           tag (r ! i) \<noteq> tag (r ! j)"
    and "\<And>i j. i < length r \<Longrightarrow> j < length r \<Longrightarrow> valid (r ! i) \<Longrightarrow> valid (r ! j) \<Longrightarrow> i \<noteq> j \<Longrightarrow>
           unat (lru_counter (r ! i)) \<noteq> unat (lru_counter (r ! j))"
    and "\<And>i. i < length r \<Longrightarrow> valid (r ! i) \<Longrightarrow>
           invalid_count r \<le> unat (lru_counter (r ! i)) \<and> unat (lru_counter (r ! i)) < length r"
    and "\<And>i. i < length r \<Longrightarrow> \<not> valid (r ! i) \<Longrightarrow> lru_counter (r ! i) = 0"
proof -
  show len: "int (length r) = A" and "0 < A" and "A \<le> MAX_ASSOCIATIVITY"
    using assms by (auto simp: row_inv_def)
  show "tag (r ! i) \<noteq> tag (r ! j)"
    if "i < length r" "j < length r" "valid (r ! i)" "valid (r ! j)" "i \<noteq> j" for i j
    using assms that by (auto simp: row_inv_def row_ok_def)
  show "unat (lru_counter (r ! i)) \<noteq> unat (lru_counter (r ! j))"
    if "i < length r" "j < length r" "valid (r ! i)" "valid (r ! j)" "i \<noteq> j" for i j
    using assms that by (auto simp: row_inv_def row_ok_def word_unat_eq_iff)
  show "invalid_count r \<le> unat (lru_counter (r ! i)) \<and> unat (lru_counter (r ! i)) < length r"
    if "i < length r" "valid (r ! i)" for i
  proof -
    have "int (unat (lru_counter (r ! i))) \<le> A - 1"
      using assms that by (auto simp: row_inv_def row_ok_def)
    with len have "unat (lru_counter (r ! i)) < length r" by linarith
    moreover have "invalid_count r \<le> unat (lru_counter (r ! i))"
      using assms that by (auto simp: row_inv_def)
    ultimately show ?thesis by simp
  qed
  show "lru_counter (r ! i) = 0" if "i < length r" "\<not> valid (r ! i)" for i
    using assms that by (auto simp: row_inv_def)
qed

lemma touch_pre_shift:
  assumes "touch_pre A r w"
  shows "\<And>i. i < length r \<Longrightarrow> valid (r ! i) \<Longrightarrow>
           invalid_count r \<le> unat (lru_counter (update_lru r A w ! i))
           \<and> unat (lru_counter (update_lru r A w ! i)) < length r"
    and "\<And>i. i < length r \<Longrightarrow> i \<noteq> w \<Longrightarrow> valid (r ! i) \<Longrightarrow>
           unat (lru_counter (update_lru r A w ! i)) < unat (lru_counter (update_lru r A w ! w))"
    and "\<And>i j. i < length r \<Longrightarrow> j < length r \<Longrightarrow> i \<noteq> w \<Longrightarrow> j \<noteq> w \<Longrightarrow>
           valid (r ! i) \<Longrightarrow> valid (r ! j) \<Longrightarrow>
           (unat (lru_counter (update_lru r A w ! i)) < unat (lru_counter (update_lru r A w ! j))
            \<longleftrightarrow> unat (lru_counter (r ! i)) < unat (lru_counter (r ! j)))"
    and "\<And>i j. i < length r \<Longrightarrow> j < length r \<Longrightarrow> i \<noteq> j \<Longrightarrow> valid (r ! i) \<Longrightarrow> valid (r ! j) \<Longrightarrow>
           unat (lru_counter (update_lru r A w ! i)) \<noteq> unat (lru_counter (update_lru r A w ! j))"
proof -
  let ?x = "\<lambda>i. unat (lru_counter (r ! i))"
  let ?x' = "\<lambda>i. unat (lru_counter (update_lru r A w ! i))"
  let ?V = "\<lambda>i. valid (r ! i)"
  from assms have len: "int (length r) = A" "0 < A" "A \<le> MAX_ASSOCIATIVITY"
    and w: "w < length r" and vw: "valid (r ! w)" and cw: "?x w < length r"
    by (auto simp: touch_pre_def)
  have step: "?x' i = (if i = w then length r - 1
                       else if ?V i \<and> ?x w < ?x i then ?x i - 1 else ?x i)"
    if "i < length r" for i
    using update_lru_unat[OF len w that] .
  have m: "invalid_count r < length r" using invalid_count_less[OF w vw] .
  have oth: "?x i \<noteq> ?x w \<and> ?x i < length r \<and> invalid_count r \<le> ?x i
             \<and> (?x w < ?x i \<longrightarrow> invalid_count r < ?x i)"
    if "i < length r" "i \<noteq> w" "?V i" for i
    using assms that unfolding touch_pre_def by blast
  have dist: "?x i \<noteq> ?x j"
    if "i < length r" "j < length r" "i \<noteq> w" "j \<noteq> w" "i \<noteq> j" "?V i" "?V j" for i j
    using assms that unfolding touch_pre_def by blast
  note rs = rank_shift[of "length r" ?x' w ?V ?x "invalid_count r", OF step w cw m oth dist]
  show "invalid_count r \<le> ?x' i \<and> ?x' i < length r" if "i < length r" "?V i" for i
    using rs(1)[of i] that by blast
  show "?x' i < ?x' w" if "i < length r" "i \<noteq> w" "?V i" for i
    using rs(2)[of i] that by blast
  show "(?x' i < ?x' j \<longleftrightarrow> ?x i < ?x j)"
    if "i < length r" "j < length r" "i \<noteq> w" "j \<noteq> w" "?V i" "?V j" for i j
    using rs(3)[of i j] that by blast
  show "?x' i \<noteq> ?x' j" if "i < length r" "j < length r" "i \<noteq> j" "?V i" "?V j" for i j
    using rs(4)[of i j] that by blast
qed

lemma touch_row_inv:
  assumes "touch_pre A r w"
  shows "row_inv A (update_lru r A w)"
proof (rule row_invI)
  from assms have len: "int (length r) = A" "0 < A" "A \<le> MAX_ASSOCIATIVITY"
    and w: "w < length r"
    by (auto simp: touch_pre_def)
  note [simp] = update_lru_valid[OF len(1) w] update_lru_tag[OF len(1) w]
    invalid_count_update_lru[OF len(1) w]
  show "int (length (update_lru r A w)) = A" "0 < A" "A \<le> MAX_ASSOCIATIVITY"
    using len by simp_all
  show "tag (update_lru r A w ! i) \<noteq> tag (update_lru r A w ! j)"
    if "i < length (update_lru r A w)" "j < length (update_lru r A w)"
      "valid (update_lru r A w ! i)" "valid (update_lru r A w ! j)" "i \<noteq> j" for i j
    using assms that unfolding touch_pre_def by simp
  show "unat (lru_counter (update_lru r A w ! i)) \<noteq> unat (lru_counter (update_lru r A w ! j))"
    if "i < length (update_lru r A w)" "j < length (update_lru r A w)"
      "valid (update_lru r A w ! i)" "valid (update_lru r A w ! j)" "i \<noteq> j" for i j
    using touch_pre_shift(4)[OF assms, of i j] that by simp
  show "invalid_count (update_lru r A w) \<le> unat (lru_counter (update_lru r A w ! i))
        \<and> unat (lru_counter (update_lru r A w ! i)) < length (update_lru r A w)"
    if "i < length (update_lru r A w)" "valid (update_lru r A w ! i)" for i
    using touch_pre_shift(1)[OF assms, of i] that by simp
  show "lru_counter (update_lru r A w ! i) = 0"
    if "i < length (update_lru r A w)" "\<not> valid (update_lru r A w ! i)" for i
  proof -
    from that have i: "i < length r" "\<not> valid (r ! i)" by simp_all
    with assms have "i \<noteq> w" "lru_counter (r ! i) = 0" by (auto simp: touch_pre_def)
    then show ?thesis using update_lru_nth[OF len(1) w i(1)] i(2) by simp
  qed
qed


section \<open>Victim selection and the two ways into a touch\<close>

lemma find_lru_victim_props:
  assumes "int (length lines) = assoc" and "0 < length lines"
  shows "find_lru_victim lines assoc < length lines"
    and "\<And>i. i < length lines \<Longrightarrow> \<not> valid (lines ! i) \<Longrightarrow>
           \<not> valid (lines ! find_lru_victim lines assoc)
           \<and> (\<forall>j < find_lru_victim lines assoc. valid (lines ! j))"
    and "(\<And>i. i < length lines \<Longrightarrow> valid (lines ! i)) \<Longrightarrow>
           (\<forall>j < length lines.
              lru_counter (lines ! find_lru_victim lines assoc) \<le> lru_counter (lines ! j))
           \<and> (\<forall>j < find_lru_victim lines assoc.
              lru_counter (lines ! find_lru_victim lines assoc) < lru_counter (lines ! j))"
proof -
  let ?v = "find_lru_victim lines assoc"
  have main: "?v < length lines \<and>
    ((\<exists>i < length lines. \<not> valid (lines ! i)) \<longrightarrow>
       \<not> valid (lines ! ?v) \<and> (\<forall>j < ?v. valid (lines ! j))) \<and>
    ((\<forall>i < length lines. valid (lines ! i)) \<longrightarrow>
       (\<forall>j < length lines. lru_counter (lines ! ?v) \<le> lru_counter (lines ! j)) \<and>
       (\<forall>j < ?v. lru_counter (lines ! ?v) < lru_counter (lines ! j)))"
  proof (cases "find_invalid lines assoc 0")
    case (Some w)
    then have v: "?v = w" by (simp add: find_lru_victim_def)
    from find_invalid_Some[OF Some]
    have w: "int w < assoc" "\<not> valid (lines ! w)" "\<forall>j. j < w \<longrightarrow> valid (lines ! j)" by auto
    from w(1) assms(1) have "w < length lines" by auto
    with w show ?thesis unfolding v by auto
  next
    case None
    then have v: "?v = find_min_loop lines assoc 1 0 (lru_counter (lines ! 0))"
      by (simp add: find_lru_victim_def)
    from find_invalid_None[OF None] assms(1)
    have allv: "\<forall>j < length lines. valid (lines ! j)" by auto
    have "let r = find_min_loop lines assoc 1 0 (lru_counter (lines ! 0)) in
        (r = 0 \<or> (1 \<le> r \<and> int r < assoc))
        \<and> (\<forall>j. j < 1 \<or> int j < assoc \<longrightarrow> lru_counter (lines ! r) \<le> lru_counter (lines ! j))
        \<and> (\<forall>j < r. lru_counter (lines ! r) < lru_counter (lines ! j))"
      by (rule find_min_loop_spec) auto
    then have r: "?v = 0 \<or> int ?v < assoc"
      "\<forall>j. int j < assoc \<longrightarrow> lru_counter (lines ! ?v) \<le> lru_counter (lines ! j)"
      "\<forall>j < ?v. lru_counter (lines ! ?v) < lru_counter (lines ! j)"
      unfolding v Let_def by auto
    from r(1) assms have "?v < length lines" by auto
    moreover from r(2) assms(1)
    have "\<forall>j < length lines. lru_counter (lines ! ?v) \<le> lru_counter (lines ! j)" by auto
    ultimately show ?thesis using allv r(3) by auto
  qed
  show "?v < length lines" using main by simp
  show "\<not> valid (lines ! ?v) \<and> (\<forall>j < ?v. valid (lines ! j))"
    if "i < length lines" "\<not> valid (lines ! i)" for i
    using main that by blast
  show "(\<forall>j < length lines. lru_counter (lines ! ?v) \<le> lru_counter (lines ! j))
        \<and> (\<forall>j < ?v. lru_counter (lines ! ?v) < lru_counter (lines ! j))"
    if "\<And>i. i < length lines \<Longrightarrow> valid (lines ! i)"
    using main that by blast
qed

lemma touch_pre_hit:
  assumes inv: "row_inv A r" and hit: "search_tag r t A 0 = Some w"
  shows "touch_pre A r w"
proof -
  note d = row_invD[OF inv]
  from search_tag_Some[OF hit] d(1) have w: "w < length r" "valid (r ! w)" by auto
  have ic: "invalid_count r \<le> unat (lru_counter (r ! w))" using d(6)[OF w] by simp
  show ?thesis
    unfolding touch_pre_def
  proof (intro conjI allI impI)
    fix i assume "i < length r" "i \<noteq> w \<and> valid (r ! i)"
    then have i: "i < length r" "i \<noteq> w" "valid (r ! i)" by auto
    show "unat (lru_counter (r ! i)) \<noteq> unat (lru_counter (r ! w))"
      using d(5)[OF i(1) w(1) i(3) w(2) i(2)] .
    show "unat (lru_counter (r ! i)) < length r" "invalid_count r \<le> unat (lru_counter (r ! i))"
      using d(6)[OF i(1,3)] by auto
    assume "unat (lru_counter (r ! w)) < unat (lru_counter (r ! i))"
    with ic show "invalid_count r < unat (lru_counter (r ! i))" by simp
  qed (use d w in \<open>auto\<close>)
qed

lemma touch_pre_miss:
  assumes inv: "row_inv A r" and miss: "search_tag r t A 0 = None"
  defines "v \<equiv> find_lru_victim r A"
  shows "touch_pre A (r[v := (r ! v)\<lparr>valid := True, tag := t\<rparr>]) v"
proof -
  note d = row_invD[OF inv]
  let ?y = "(r ! v)\<lparr>valid := True, tag := t\<rparr>"
  let ?r = "r[v := ?y]"
  from d(1,2) have pos: "0 < length r" by auto
  have v: "v < length r" unfolding v_def by (rule find_lru_victim_props(1)[OF d(1) pos])
  have nth: "?r ! i = (if i = v then ?y else r ! i)" if "i < length r" for i
    using that by (simp add: nth_list_update)
  have notag: "tag (r ! j) \<noteq> t" if "j < length r" "valid (r ! j)" for j
    using search_tag_None[OF miss] that d(1) by auto
  have cv: "unat (lru_counter (r ! v)) < length r"
  proof (cases "valid (r ! v)")
    case True then show ?thesis using d(6)[OF v] by simp
  next
    case False then show ?thesis using d(7)[OF v] pos by simp
  qed
  have ic: "invalid_count ?r \<le> unat (lru_counter (r ! i))
            \<and> (unat (lru_counter (r ! v)) < unat (lru_counter (r ! i))
                 \<longrightarrow> invalid_count ?r < unat (lru_counter (r ! i)))
            \<and> unat (lru_counter (r ! i)) \<noteq> unat (lru_counter (r ! v))"
    if i: "i < length r" "i \<noteq> v" "valid (r ! i)" for i
  proof (cases "valid (r ! v)")
    case True
    have "invalid_count ?r = invalid_count r" by (rule invalid_count_replace[OF v True]) simp
    moreover have "invalid_count r \<le> unat (lru_counter (r ! v))" using d(6)[OF v True] by simp
    moreover have "invalid_count r \<le> unat (lru_counter (r ! i))" using d(6)[OF i(1,3)] by simp
    ultimately show ?thesis using d(5)[OF i(1) v i(3) True i(2)] by simp
  next
    case False
    have "Suc (invalid_count ?r) = invalid_count r" by (rule invalid_count_fill[OF v False]) simp
    moreover have "invalid_count r \<le> unat (lru_counter (r ! i))" using d(6)[OF i(1,3)] by simp
    moreover have "unat (lru_counter (r ! v)) = 0" using d(7)[OF v False] by simp
    ultimately show ?thesis by simp
  qed
  show ?thesis
    unfolding touch_pre_def
  proof (intro conjI allI impI)
    show "int (length ?r) = A" "0 < A" "A \<le> MAX_ASSOCIATIVITY" using d(1-3) by simp_all
    show "v < length ?r" using v by simp
    show "valid (?r ! v)" using v by simp
    show "unat (lru_counter (?r ! v)) < length ?r" using cv v by simp
  next
    fix i assume "i < length ?r" "\<not> valid (?r ! i)"
    then have "i < length r" "i \<noteq> v" "\<not> valid (r ! i)" using nth[of i] by (auto split: if_splits)
    then show "lru_counter (?r ! i) = 0" using d(7)[of i] by simp
  next
    fix i j assume "i < length ?r" "j < length ?r" "valid (?r ! i) \<and> valid (?r ! j) \<and> i \<noteq> j"
    then have ij: "i < length r" "j < length r" "i \<noteq> j" "valid (?r ! i)" "valid (?r ! j)" by auto
    show "tag (?r ! i) \<noteq> tag (?r ! j)"
    proof (cases "i = v")
      case True
      with ij have "j \<noteq> v" "valid (r ! j)" by auto
      with notag[OF ij(2)] True ij(1,2) show ?thesis by simp
    next
      case iv: False
      with ij have vi: "valid (r ! i)" by simp
      show ?thesis
      proof (cases "j = v")
        case True
        with notag[OF ij(1) vi] iv ij(1,2) show ?thesis by auto
      next
        case False
        with ij have "valid (r ! j)" by simp
        from d(4)[OF ij(1,2) vi this ij(3)] iv False show ?thesis by simp
      qed
    qed
  next
    fix i assume "i < length ?r" "i \<noteq> v \<and> valid (?r ! i)"
    then have i: "i < length r" "i \<noteq> v" "valid (r ! i)" by auto
    have e: "?r ! i = r ! i" "lru_counter (?r ! v) = lru_counter (r ! v)"
      using i v by simp_all
    show "unat (lru_counter (?r ! i)) \<noteq> unat (lru_counter (?r ! v))"
      unfolding e using ic[OF i] by simp
    show "unat (lru_counter (?r ! i)) < length ?r"
      unfolding e using d(6)[OF i(1,3)] by simp
    show "invalid_count ?r \<le> unat (lru_counter (?r ! i))"
      unfolding e using ic[OF i] by simp
    assume "unat (lru_counter (?r ! v)) < unat (lru_counter (?r ! i))"
    then show "invalid_count ?r < unat (lru_counter (?r ! i))"
      unfolding e using ic[OF i] by simp
  next
    fix i j assume "i < length ?r" "j < length ?r"
      "i \<noteq> v \<and> j \<noteq> v \<and> i \<noteq> j \<and> valid (?r ! i) \<and> valid (?r ! j)"
    then have ij: "i < length r" "j < length r" "i \<noteq> v" "j \<noteq> v" "i \<noteq> j"
      "valid (r ! i)" "valid (r ! j)" by auto
    then have e: "?r ! i = r ! i" "?r ! j = r ! j" by simp_all
    show "unat (lru_counter (?r ! i)) \<noteq> unat (lru_counter (?r ! j))"
      unfolding e using d(5)[OF ij(1,2,6,7,5)] .
  qed
qed


section \<open>Reachable states\<close>

lemma main_run_Inr:
  "main_run config tr = Inr s \<longleftrightarrow>
     validate_config config = None
     \<and> s = trace_loop (initial_state config) (run_config config) tr"
  by (auto simp: main_run_def run_config_def initial_state_def split: option.splits prod.splits)

lemma run_config_simps [simp]:
  "associativity (run_config config) = associativity config"
  "num_sets (run_config config) = num_sets config"
  "line_size (run_config config) = line_size config"
  "index_bits (run_config config) = log2_int (num_sets config)"
  "offset_bits (run_config config) = log2_int (line_size config)"
  by (simp_all add: run_config_def init_cache_def Let_def)

lemma initial_cache:
  "cache (initial_state config) =
     replicate (nat (num_sets config)) (replicate (nat (associativity config)) empty_line)"
  by (simp add: initial_state_def init_cache_def Let_def)

lemma validate_config_assoc:
  "validate_config config = None \<Longrightarrow>
     0 < associativity config \<and> associativity config \<le> MAX_ASSOCIATIVITY"
  by (auto simp: validate_config_def split: if_splits)

lemma validate_config_sets:
  "validate_config config = None \<Longrightarrow> \<exists>k. num_sets config = 2 ^ k"
  using pow2_test[of "num_sets config"]
  by (auto simp: validate_config_def split: if_splits)

lemma row_inv_empty:
  assumes "0 < A" "A \<le> MAX_ASSOCIATIVITY"
  shows "row_inv A (replicate (nat A) empty_line)"
  by (rule row_invI) (use assms in \<open>auto simp: empty_line_def\<close>)

lemma cache_inv_initial:
  "validate_config config = None \<Longrightarrow> cache_inv (run_config config) (cache (initial_state config))"
  using validate_config_assoc[of config]
  by (auto simp: cache_inv_def initial_cache row_inv_empty)

lemma index_in_range:
  assumes "validate_config config = None"
  shows "unat (addr_index (run_config config) address) < length (cache (initial_state config))"
proof -
  from validate_config_sets[OF assms] obtain k where k: "num_sets config = 2 ^ k" ..
  have "log2_int (num_sets config) = int k"
    unfolding k log2_int_def by (simp add: log2_loop_pow2)
  have "unat (addr_index (run_config config) address)
          < 2 ^ nat (index_bits (run_config config))"
    unfolding addr_index_def by (rule unat_and_low_bits)
  with \<open>log2_int (num_sets config) = int k\<close>
  have "unat (addr_index (run_config config) address) < 2 ^ k" by simp
  moreover have "length (cache (initial_state config)) = 2 ^ k"
    by (simp add: initial_cache k nat_power_eq)
  ultimately show ?thesis by simp
qed

text \<open>The cache after one access, by cases.\<close>

lemma access_cache_cache:
  "cache (access_cache s config access_type address) =
     (let idx = unat (addr_index config address); row = cache s ! idx;
          A = associativity config
      in case lookup_way s config address of
           Some w \<Rightarrow>
             if is_read access_type \<or> is_write access_type
             then (cache s)[idx := update_lru row A w]
             else cache s
         | None \<Rightarrow>
             if is_read access_type
             then (cache s)[idx := update_lru
                     (row[find_lru_victim row A :=
                        (row ! find_lru_victim row A)\<lparr>valid := True, tag := addr_tag config address\<rparr>])
                     A (find_lru_victim row A)]
             else cache s)"
  by (auto simp: access_cache_def Let_def print_line_def set_row_def split: option.splits)

lemma access_cache_length [simp]:
  "length (cache (access_cache s config access_type address)) = length (cache s)"
  by (simp add: access_cache_cache Let_def split: option.splits)

lemma cache_inv_update:
  assumes "cache_inv config c" and "idx < length c \<Longrightarrow> row_inv (associativity config) row"
  shows "cache_inv config (c[idx := row])"
proof (cases "idx < length c")
  case True
  have "set (c[idx := row]) \<subseteq> insert row (set c)" by (rule set_update_subset_insert)
  with assms True show ?thesis by (auto simp: cache_inv_def)
next
  case False
  then have "c[idx := row] = c" by (simp add: list_update_beyond)
  then show ?thesis using assms(1) by simp
qed

lemma access_cache_inv:
  assumes "cache_inv config (cache s)"
  shows "cache_inv config (cache (access_cache s config access_type address))"
proof -
  let ?idx = "unat (addr_index config address)"
  let ?row = "cache s ! ?idx"
  let ?A = "associativity config"
  have row: "row_inv ?A ?row" if "?idx < length (cache s)"
    using assms that by (auto simp: cache_inv_def)
  show ?thesis
  proof (cases "lookup_way s config address")
    case (Some w)
    then have hit: "search_tag ?row (addr_tag config address) ?A 0 = Some w"
      by (simp add: lookup_way_def)
    have "cache_inv config ((cache s)[?idx := update_lru ?row ?A w])"
      by (rule cache_inv_update[OF assms]) (rule touch_row_inv[OF touch_pre_hit[OF row hit]])
    with Some assms show ?thesis by (simp add: access_cache_cache Let_def)
  next
    case None
    then have miss: "search_tag ?row (addr_tag config address) ?A 0 = None"
      by (simp add: lookup_way_def)
    let ?v = "find_lru_victim ?row ?A"
    have "cache_inv config ((cache s)[?idx := update_lru
             (?row[?v := (?row ! ?v)\<lparr>valid := True, tag := addr_tag config address\<rparr>]) ?A ?v])"
      by (rule cache_inv_update[OF assms]) (rule touch_row_inv[OF touch_pre_miss[OF row miss]])
    with None assms show ?thesis by (simp add: access_cache_cache Let_def)
  qed
qed

lemma trace_loop_inv:
  "cache_inv config (cache s) \<Longrightarrow> cache_inv config (cache (trace_loop s config tr))"
proof (induction tr arbitrary: s)
  case Nil
  then show ?case by simp
next
  case (Cons e tr)
  obtain access_type sz address where e: "e = (access_type, sz, address)" by (cases e)
  show ?case unfolding e using Cons.prems
    by (auto intro!: Cons.IH access_cache_inv)
qed

lemma trace_loop_length [simp]:
  "length (cache (trace_loop s config tr)) = length (cache s)"
proof (induction tr arbitrary: s)
  case Nil
  then show ?case by simp
next
  case (Cons e tr)
  obtain access_type sz address where e: "e = (access_type, sz, address)" by (cases e)
  show ?case unfolding e by (simp add: Cons.IH)
qed

section \<open>Statistics\<close>

lemma sint_succ:
  fixes x :: c_int
  assumes "sint x < INT_MAX"
  shows "sint (x + 1) = sint x + 1"
proof -
  have lo: "- (2 ^ 31) \<le> sint x" using sint_ge[of x] by simp
  have "sint (x + 1) = signed_take_bit 31 (sint x + sint (1 :: c_int))"
    by (simp add: sint_word_ariths)
  also have "\<dots> = signed_take_bit 31 (sint x + 1)" by simp
  also have "\<dots> = sint x + 1"
    by (rule signed_take_bit_int_eq_self) (use lo assms in \<open>simp_all add: INT_MAX_def\<close>)
  finally show ?thesis .
qed

lemma sint_le_succ:
  fixes x :: c_int
  shows "sint x < INT_MAX \<Longrightarrow> sint x \<le> sint (x + 1)"
  by (simp add: sint_succ)

lemma read_not_write: "is_read c \<Longrightarrow> \<not> is_write c"
  by (auto simp: is_read_def is_write_def)

text \<open>What one access does to the counters and to the printed lines, by cases.\<close>

lemma access_cache_stats:
  "stats (access_cache s config access_type address) =
     (if is_read access_type then
        (case lookup_way s config address of
           Some w \<Rightarrow> (stats s)\<lparr>hits := hits (stats s) + 1\<rparr>
         | None \<Rightarrow> (stats s)\<lparr>misses := misses (stats s) + 1,
                               mem_reads := mem_reads (stats s) + 1\<rparr>)
      else if is_write access_type then
        (case lookup_way s config address of
           Some w \<Rightarrow> (stats s)\<lparr>mem_writes := mem_writes (stats s) + 1,
                                 hits := hits (stats s) + 1\<rparr>
         | None \<Rightarrow> (stats s)\<lparr>mem_writes := mem_writes (stats s) + 1,
                               misses := misses (stats s) + 1\<rparr>)
      else stats s)"
  by (auto simp: access_cache_def Let_def print_line_def set_row_def split: option.splits)

lemma access_cache_printed:
  "printed (access_cache s config access_type address) =
     (if is_read access_type \<or> is_write access_type then
        printed s @
          [\<lparr>o_type = access_type, o_address = address,
            o_tag = addr_tag config address, o_index = addr_index config address,
            o_offset = addr_offset config address,
            o_hit = (lookup_way s config address \<noteq> None),
            o_memrefs = (if is_write access_type then 1
                         else if lookup_way s config address \<noteq> None then 0 else 1)\<rparr>]
      else printed s)"
  by (auto simp: access_cache_def Let_def print_line_def set_row_def read_not_write
      split: option.splits)

lemma access_cache_printed_length:
  "length (printed (access_cache s config access_type address)) =
     length (printed s) + (if is_read access_type \<or> is_write access_type then 1 else 0)"
  by (simp add: access_cache_printed)

text \<open>One call never lowers a counter that is below \<open>INT_MAX\<close>.\<close>

lemma access_cache_counter_steps:
  "hits (stats (access_cache s config access_type address)) = hits (stats s)
     \<or> hits (stats (access_cache s config access_type address)) = hits (stats s) + 1"
  "misses (stats (access_cache s config access_type address)) = misses (stats s)
     \<or> misses (stats (access_cache s config access_type address)) = misses (stats s) + 1"
  "mem_reads (stats (access_cache s config access_type address)) = mem_reads (stats s)
     \<or> mem_reads (stats (access_cache s config access_type address)) = mem_reads (stats s) + 1"
  "mem_writes (stats (access_cache s config access_type address)) = mem_writes (stats s)
     \<or> mem_writes (stats (access_cache s config access_type address)) = mem_writes (stats s) + 1"
  by (auto simp: access_cache_stats split: option.splits)

lemma bounded_sums:
  assumes "list_all (\<lambda>l. o_memrefs l = 0 \<or> o_memrefs l = 1) xs"
  shows "0 \<le> sum_list (map o_memrefs (filter P xs))"
    and "sum_list (map o_memrefs (filter P xs)) \<le> int (length xs)"
  using assms by (induction xs) auto

lemma stats_agree_bounds:
  assumes "stats_agree s" and "lines_ok s"
  shows "0 \<le> sint (hits (stats s)) \<and> sint (hits (stats s)) \<le> int (length (printed s))"
    and "0 \<le> sint (misses (stats s)) \<and> sint (misses (stats s)) \<le> int (length (printed s))"
    and "0 \<le> sint (mem_reads (stats s))
         \<and> sint (mem_reads (stats s)) \<le> int (length (printed s))"
    and "0 \<le> sint (mem_writes (stats s))
         \<and> sint (mem_writes (stats s)) \<le> int (length (printed s))"
  using assms bounded_sums[of "printed s"]
  by (auto simp: stats_agree_def lines_ok_def)

lemma access_cache_lines_ok:
  "lines_ok s \<Longrightarrow> lines_ok (access_cache s config access_type address)"
  by (simp add: lines_ok_def access_cache_printed)

lemma access_cache_stats_agree:
  assumes ag: "stats_agree s" and ok: "lines_ok s"
    and room: "int (length (printed s)) < INT_MAX"
  shows "stats_agree (access_cache s config access_type address)"
proof -
  note b = stats_agree_bounds[OF ag ok]
  have inc: "sint (hits (stats s) + 1) = sint (hits (stats s)) + 1"
    "sint (misses (stats s) + 1) = sint (misses (stats s)) + 1"
    "sint (mem_reads (stats s) + 1) = sint (mem_reads (stats s)) + 1"
    "sint (mem_writes (stats s) + 1) = sint (mem_writes (stats s)) + 1"
    using b room by (simp_all add: sint_succ)
  show ?thesis
  proof (cases "is_read access_type")
    case True
    then have nw: "\<not> is_write access_type" by (rule read_not_write)
    show ?thesis
      using ag True nw inc
      by (auto simp: stats_agree_def access_cache_stats access_cache_printed split: option.splits)
  next
    case False
    show ?thesis
      using ag False inc
      by (auto simp: stats_agree_def access_cache_stats access_cache_printed split: option.splits)
  qed
qed

lemma trace_loop_append:
  "trace_loop s config (tr1 @ tr2) = trace_loop (trace_loop s config tr1) config tr2"
proof (induction tr1 arbitrary: s)
  case Nil
  show ?case by simp
next
  case (Cons e tr1)
  obtain access_type sz address where e: "e = (access_type, sz, address)" by (cases e)
  show ?case unfolding e by (simp add: Cons.IH)
qed

lemma trace_loop_printed_length:
  "length (printed (trace_loop s config tr)) = length (printed s) + length (filter processed tr)"
proof (induction tr arbitrary: s)
  case Nil
  then show ?case by simp
next
  case (Cons e tr)
  obtain access_type sz address where e: "e = (access_type, sz, address)" by (cases e)
  show ?case unfolding e
    by (auto simp: Cons.IH access_cache_printed_length processed_def reaches_core_def)
qed

lemma trace_loop_printed_prefix:
  "\<exists>xs. printed (trace_loop s config tr) = printed s @ xs"
proof (induction tr arbitrary: s)
  case Nil
  show ?case by simp
next
  case (Cons e tr)
  obtain access_type sz address where e: "e = (access_type, sz, address)" by (cases e)
  let ?s1 = "access_cache s config access_type address"
  have "\<exists>ys. printed ?s1 = printed s @ ys" by (simp add: access_cache_printed)
  then obtain ys where ys: "printed ?s1 = printed s @ ys" ..
  from Cons.IH[of ?s1] obtain xs where "printed (trace_loop ?s1 config tr) = printed ?s1 @ xs" ..
  with ys have "printed (trace_loop ?s1 config tr) = printed s @ (ys @ xs)" by simp
  then show ?case unfolding e using Cons.IH[of s] by auto
qed

lemma trace_loop_stats_agree:
  assumes "stats_agree s" and "lines_ok s"
    and "int (length (printed s)) + int (length (filter processed tr)) \<le> INT_MAX"
  shows "stats_agree (trace_loop s config tr) \<and> lines_ok (trace_loop s config tr)"
  using assms
proof (induction tr arbitrary: s)
  case Nil
  then show ?case by simp
next
  case (Cons e tr)
  obtain access_type sz address where e: "e = (access_type, sz, address)" by (cases e)
  show ?case
  proof (cases "reaches_core e")
    case False
    then have "trace_loop s config (e # tr) = trace_loop s config tr"
      unfolding e by (auto simp: reaches_core_def)
    moreover from False have "filter processed (e # tr) = filter processed tr"
      by (simp add: processed_def)
    ultimately show ?thesis using Cons.IH[of s] Cons.prems by simp
  next
    case True
    let ?s1 = "access_cache s config access_type address"
    from True have step: "trace_loop s config (e # tr) = trace_loop ?s1 config tr"
      unfolding e by (auto simp: reaches_core_def)
    show ?thesis
    proof (cases "is_read access_type \<or> is_write access_type")
      case False
      then have same: "?s1 = s" by (simp add: access_cache_def Let_def)
      from False have "filter processed (e # tr) = filter processed tr"
        unfolding e by (simp add: processed_def)
      with Cons.IH[of s] Cons.prems show ?thesis unfolding step same by simp
    next
      case rw: True
      with True have n: "length (filter processed (e # tr)) = Suc (length (filter processed tr))"
        unfolding e by (simp add: processed_def)
      with Cons.prems(3) have room: "int (length (printed s)) < INT_MAX" by simp
      have ag: "stats_agree ?s1"
        by (rule access_cache_stats_agree[OF Cons.prems(1,2) room])
      have ok: "lines_ok ?s1" by (rule access_cache_lines_ok[OF Cons.prems(2)])
      have "int (length (printed ?s1)) + int (length (filter processed tr)) \<le> INT_MAX"
        using Cons.prems(3) n rw by (simp add: access_cache_printed_length)
      from Cons.IH[OF ag ok this] show ?thesis unfolding step .
    qed
  qed
qed

lemma stats_agree_total:
  "stats_agree s \<Longrightarrow>
     sint (hits (stats s)) + sint (misses (stats s)) = int (length (printed s))"
  using sum_length_filter_compl[of o_hit "printed s"]
  by (simp add: stats_agree_def)

lemma sum_memrefs_mono:
  assumes "list_all (\<lambda>l. o_memrefs l = 0 \<or> o_memrefs l = 1) (xs @ ys)"
  shows "sum_list (map o_memrefs (filter P xs)) \<le> sum_list (map o_memrefs (filter P (xs @ ys)))"
proof -
  from assms have "list_all (\<lambda>l. o_memrefs l = 0 \<or> o_memrefs l = 1) ys" by simp
  from bounded_sums(1)[OF this, of P] show ?thesis by simp
qed

lemma stats_agree_mono:
  assumes "stats_agree s1" and "stats_agree s2" and "lines_ok s2"
    and "printed s2 = printed s1 @ xs"
  shows "stats_le (stats s1) (stats s2)"
proof -
  from assms(3,4)
  have ok: "list_all (\<lambda>l. o_memrefs l = 0 \<or> o_memrefs l = 1) (printed s1 @ xs)"
    by (simp add: lines_ok_def)
  show ?thesis
    using assms(1,2) sum_memrefs_mono[OF ok]
    unfolding stats_le_def stats_agree_def assms(4) by simp
qed

lemma initial_agree: "stats_agree (initial_state config)" "lines_ok (initial_state config)"
  by (simp_all add: stats_agree_def lines_ok_def initial_state_def stats0_def)

text \<open>Reading address 0 again and again: after the first read the line sits in way 0 of
  set 0 with the top counter, and every further read is a hit that changes \<open>hits\<close> only.\<close>

lemma warm_read:
  assumes "cache s = [[\<lparr>valid = True, tag = 0, lru_counter = 1\<rparr>, empty_line],
                      [empty_line, empty_line], [empty_line, empty_line],
                      [empty_line, empty_line]]"
  shows "cache (access_cache s (run_config demo_config) CHR ''R'' 0) = cache s"
    and "hits (stats (access_cache s (run_config demo_config) CHR ''R'' 0)) = hits (stats s) + 1"
    and "misses (stats (access_cache s (run_config demo_config) CHR ''R'' 0)) = misses (stats s)"
proof -
  have rd: "is_read CHR ''R''" by (simp add: is_read_def)
  have look: "lookup_way s (run_config demo_config) 0 = Some 0"
    unfolding lookup_way_def assms by code_simp
  show "hits (stats (access_cache s (run_config demo_config) CHR ''R'' 0)) = hits (stats s) + 1"
    and "misses (stats (access_cache s (run_config demo_config) CHR ''R'' 0)) = misses (stats s)"
    by (simp_all add: access_cache_stats rd look)
  have "cache (access_cache s (run_config demo_config) CHR ''R'' 0) =
      (cache s)[unat (addr_index (run_config demo_config) 0) :=
         update_lru (cache s ! unat (addr_index (run_config demo_config) 0))
           (associativity (run_config demo_config)) 0]"
    by (simp add: access_cache_cache Let_def rd look)
  also have "\<dots> = cache s" unfolding assms by code_simp
  finally show "cache (access_cache s (run_config demo_config) CHR ''R'' 0) = cache s" .
qed

lemma warm_reads:
  assumes "cache s = [[\<lparr>valid = True, tag = 0, lru_counter = 1\<rparr>, empty_line],
                      [empty_line, empty_line], [empty_line, empty_line],
                      [empty_line, empty_line]]"
  shows "cache (trace_loop s (run_config demo_config) (replicate n first_read)) = cache s
     \<and> hits (stats (trace_loop s (run_config demo_config) (replicate n first_read)))
         = hits (stats s) + of_nat n
     \<and> misses (stats (trace_loop s (run_config demo_config) (replicate n first_read)))
         = misses (stats s)"
  using assms
proof (induction n arbitrary: s)
  case 0
  show ?case by simp
next
  case (Suc n)
  let ?s1 = "access_cache s (run_config demo_config) CHR ''R'' 0"
  note w = warm_read[OF Suc.prems]
  have step: "trace_loop s (run_config demo_config) (replicate (Suc n) first_read)
      = trace_loop ?s1 (run_config demo_config) (replicate n first_read)"
    by (simp add: first_read_def)
  have c1: "cache ?s1 = [[\<lparr>valid = True, tag = 0, lru_counter = 1\<rparr>, empty_line],
                      [empty_line, empty_line], [empty_line, empty_line],
                      [empty_line, empty_line]]"
    using w(1) Suc.prems by simp
  from Suc.IH[OF c1] w show ?case unfolding step by (simp add: Suc.prems)
qed

lemma cold_then_warm:
  "cache (trace_loop (initial_state demo_config) (run_config demo_config)
            (replicate (Suc m) first_read))
     = [[\<lparr>valid = True, tag = 0, lru_counter = 1\<rparr>, empty_line],
        [empty_line, empty_line], [empty_line, empty_line], [empty_line, empty_line]]
   \<and> hits (stats (trace_loop (initial_state demo_config) (run_config demo_config)
            (replicate (Suc m) first_read))) = of_nat m
   \<and> misses (stats (trace_loop (initial_state demo_config) (run_config demo_config)
            (replicate (Suc m) first_read))) = 1"
proof -
  let ?s1 = "access_cache (initial_state demo_config) (run_config demo_config) CHR ''R'' 0"
  have step: "trace_loop (initial_state demo_config) (run_config demo_config)
                (replicate (Suc m) first_read)
      = trace_loop ?s1 (run_config demo_config) (replicate m first_read)"
    by (simp add: first_read_def)
  have c1: "cache ?s1 = [[\<lparr>valid = True, tag = 0, lru_counter = 1\<rparr>, empty_line],
                      [empty_line, empty_line], [empty_line, empty_line],
                      [empty_line, empty_line]]"
    by code_simp
  have h1: "hits (stats ?s1) = 0" and m1: "misses (stats ?s1) = 1" by code_simp+
  from warm_reads[OF c1, of m] c1 h1 m1 show ?thesis unfolding step by simp
qed

lemma processed_first_read: "processed first_read"
  by code_simp

section \<open>Counters follow the order of the touches\<close>

lemma order_inv_later: "order_inv c lt n \<Longrightarrow> order_inv c lt (Suc n)"
  by (auto simp: order_inv_def le_SucI)

text \<open>A touch of way \<open>w\<close> of set \<open>k\<close> at a time later than every recorded one.\<close>

lemma order_inv_touch:
  assumes ord: "order_inv c lt n" and k: "k < length c"
    and pre: "touch_pre A r w"
    and same: "\<And>i. i < length r \<Longrightarrow> i \<noteq> w \<Longrightarrow> r ! i = c ! k ! i"
    and len: "length r = length (c ! k)"
  shows "order_inv (c[k := update_lru r A w]) (lt(k := (lt k)(w := Suc n))) (Suc n)"
  unfolding order_inv_def
proof (intro conjI allI impI)
  fix k' w'
  show "(lt(k := (lt k)(w := Suc n))) k' w' \<le> Suc n"
    using ord by (auto simp: order_inv_def le_SucI)
next
  fix k' i j
  let ?c' = "c[k := update_lru r A w]"
  let ?lt' = "lt(k := (lt k)(w := Suc n))"
  assume k': "k' < length ?c'" and i: "i < length (?c' ! k')" and j: "j < length (?c' ! k')"
    and v: "valid (?c' ! k' ! i) \<and> valid (?c' ! k' ! j)"
  show "unat (lru_counter (?c' ! k' ! i)) < unat (lru_counter (?c' ! k' ! j))
        \<longleftrightarrow> ?lt' k' i < ?lt' k' j"
  proof (cases "k' = k")
    case False
    with k' i j v ord show ?thesis by (auto simp: order_inv_def)
  next
    case True
    from pre have A: "int (length r) = A" and w: "w < length r"
      by (auto simp: touch_pre_def)
    have row: "?c' ! k' = update_lru r A w" using True k by simp
    from i j row have ij: "i < length r" "j < length r" by simp_all
    from v row have vr: "valid (r ! i)" "valid (r ! j)"
      using update_lru_valid[OF A w] ij by simp_all
    have bound: "lt k x \<le> n" for x using ord by (simp add: order_inv_def)
    note sh = touch_pre_shift[OF pre]
    show ?thesis
    proof (cases "i = w")
      case iw: True
      show ?thesis
      proof (cases "j = w")
        case True
        with iw show ?thesis by simp
      next
        case False
        from sh(2)[OF ij(2) False vr(2)] bound[of j] iw False True row
        show ?thesis by (simp add: not_less less_Suc_eq_le less_imp_le)
      qed
    next
      case iw: False
      show ?thesis
      proof (cases "j = w")
        case True
        from sh(2)[OF ij(1) iw vr(1)] bound[of i] iw True \<open>k' = k\<close> row
        show ?thesis by (simp add: less_Suc_eq_le)
      next
        case jw: False
        have old: "valid (c ! k ! i)" "valid (c ! k ! j)"
          "lru_counter (r ! i) = lru_counter (c ! k ! i)"
          "lru_counter (r ! j) = lru_counter (c ! k ! j)"
          using same[OF ij(1) iw] same[OF ij(2) jw] vr by simp_all
        have "unat (lru_counter (c ! k ! i)) < unat (lru_counter (c ! k ! j))
              \<longleftrightarrow> lt k i < lt k j"
          using ord k ij len old(1,2) unfolding order_inv_def by auto
        with sh(3)[OF ij iw jw vr] old(3,4) iw jw True row
        show ?thesis by simp
      qed
    qed
  qed
qed

lemma order_inv_outside:
  assumes "order_inv c lt n" and "\<not> k < length c" and "\<And>w. f w \<le> Suc n"
  shows "order_inv c (lt(k := f)) (Suc n)"
  using assms by (auto simp: order_inv_def le_SucI)

lemma access_cache_order_inv:
  assumes inv: "cache_inv config (cache s)" and ord: "order_inv (cache s) lt n"
  shows "order_inv (cache (access_cache s config access_type address))
           (record_touch s config access_type address (Suc n) lt) (Suc n)"
proof -
  let ?idx = "unat (addr_index config address)"
  let ?row = "cache s ! ?idx"
  let ?A = "associativity config"
  let ?t = "addr_tag config address"
  have row: "row_inv ?A ?row" if "?idx < length (cache s)"
    using inv that by (auto simp: cache_inv_def)
  have bound: "\<And>x. ((lt ?idx)(w := Suc n)) x \<le> Suc n" for w :: nat
    using ord by (auto simp: order_inv_def le_SucI)
  show ?thesis
  proof (cases "lookup_way s config address")
    case (Some w)
    then have hit: "search_tag ?row ?t ?A 0 = Some w" by (simp add: lookup_way_def)
    show ?thesis
    proof (cases "is_read access_type \<or> is_write access_type")
      case False
      with Some show ?thesis
        by (simp add: access_cache_cache Let_def record_touch_def touched_way_def order_inv_later[OF ord])
    next
      case True
      have "order_inv ((cache s)[?idx := update_lru ?row ?A w])
              (lt(?idx := (lt ?idx)(w := Suc n))) (Suc n)"
      proof (cases "?idx < length (cache s)")
        case in_range: True
        show ?thesis
          by (rule order_inv_touch[OF ord in_range touch_pre_hit[OF row[OF in_range] hit]])
            simp_all
      next
        case False
        then have "(cache s)[?idx := update_lru ?row ?A w] = cache s"
          by (simp add: list_update_beyond)
        with order_inv_outside[OF ord False, of "(lt ?idx)(w := Suc n)"] bound[of w]
        show ?thesis by simp
      qed
      with Some True show ?thesis
        by (simp add: access_cache_cache Let_def record_touch_def touched_way_def)
    qed
  next
    case None
    then have miss: "search_tag ?row ?t ?A 0 = None" by (simp add: lookup_way_def)
    show ?thesis
    proof (cases "is_read access_type")
      case False
      with None show ?thesis
        by (simp add: access_cache_cache Let_def record_touch_def touched_way_def order_inv_later[OF ord])
    next
      case True
      let ?v = "find_lru_victim ?row ?A"
      let ?r = "?row[?v := (?row ! ?v)\<lparr>valid := True, tag := ?t\<rparr>]"
      have "order_inv ((cache s)[?idx := update_lru ?r ?A ?v])
              (lt(?idx := (lt ?idx)(?v := Suc n))) (Suc n)"
      proof (cases "?idx < length (cache s)")
        case in_range: True
        show ?thesis
          by (rule order_inv_touch[OF ord in_range touch_pre_miss[OF row[OF in_range] miss]])
            simp_all
      next
        case False
        then have "(cache s)[?idx := update_lru ?r ?A ?v] = cache s"
          by (simp add: list_update_beyond)
        with order_inv_outside[OF ord False, of "(lt ?idx)(?v := Suc n)"] bound[of ?v]
        show ?thesis by simp
      qed
      with None True show ?thesis
        by (simp add: access_cache_cache Let_def record_touch_def touched_way_def)
    qed
  qed
qed

lemma trace_order_inv:
  "cache_inv config (cache s) \<Longrightarrow> order_inv (cache s) lt n \<Longrightarrow>
   order_inv (cache (trace_loop s config tr)) (trace_touches s config n lt tr) (n + length tr)"
proof (induction tr arbitrary: s lt n)
  case Nil
  then show ?case by simp
next
  case (Cons e tr)
  obtain access_type sz address where e: "e = (access_type, sz, address)" by (cases e)
  show ?case
  proof (cases "(sz \<noteq> 1 \<and> sz \<noteq> 2 \<and> sz \<noteq> 4 \<and> sz \<noteq> 8) \<or> (address AND word_of_int (sz - 1)) \<noteq> 0")
    case True
    have "order_inv (cache (trace_loop s config tr)) (trace_touches s config (Suc n) lt tr)
            (Suc n + length tr)"
      by (rule Cons.IH[OF Cons.prems(1) order_inv_later[OF Cons.prems(2)]])
    with True show ?thesis unfolding e by auto
  next
    case False
    have "order_inv (cache (trace_loop (access_cache s config access_type address) config tr))
            (trace_touches (access_cache s config access_type address) config (Suc n)
               (record_touch s config access_type address (Suc n) lt) tr)
            (Suc n + length tr)"
      by (rule Cons.IH[OF access_cache_inv[OF Cons.prems(1)]
            access_cache_order_inv[OF Cons.prems]])
    with False show ?thesis unfolding e by auto
  qed
qed

lemma order_inv_initial: "order_inv (cache (initial_state config)) (\<lambda>k w. 0) 0"
  by (auto simp: order_inv_def initial_cache empty_line_def)

lemma reachable_invs:
  assumes "main_run config tr = Inr s"
  shows "cache_inv (run_config config) (cache s)"
    and "order_inv (cache s) (last_touch config tr) (length tr)"
    and "unat (addr_index (run_config config) address) < length (cache s)"
proof -
  from assms have v: "validate_config config = None"
    and s: "s = trace_loop (initial_state config) (run_config config) tr"
    by (simp_all add: main_run_Inr)
  show "cache_inv (run_config config) (cache s)"
    unfolding s by (rule trace_loop_inv[OF cache_inv_initial[OF v]])
  show "order_inv (cache s) (last_touch config tr) (length tr)"
    unfolding s last_touch_def
    using trace_order_inv[OF cache_inv_initial[OF v] order_inv_initial, of tr] by simp
  show "unat (addr_index (run_config config) address) < length (cache s)"
    unfolding s using index_in_range[OF v] by simp
qed

section \<open>The claims\<close>

text \<open>
  C3. Every processed access reports its number of memory references: a read reports 0 on
  a hit and 1 on a miss, a write reports 1 whether it hits or misses. The report is the
  line \<open>access_cache\<close> prints; exactly one line is printed per read or write.
\<close>

theorem mem_ref_count:
  assumes "is_read access_type \<or> is_write access_type"
  shows "\<exists>l. printed (access_cache s config access_type address) = printed s @ [l]
     \<and> o_hit l = (lookup_way s config address \<noteq> None)
     \<and> o_memrefs l = (if is_write access_type then 1 else if o_hit l then 0 else 1)"
  using assms
  by (auto simp: access_cache_def Let_def is_read_def is_write_def print_line_def set_row_def
      split: option.splits)

theorem mem_ref_count_witness:
  "is_write CHR ''W'' \<and>
   (\<exists>l. printed (access_cache (initial_state demo_config) (run_config demo_config) CHR ''W'' 0x40)
          = printed (initial_state demo_config) @ [l]
        \<and> \<not> o_hit l \<and> o_memrefs l = 1)"
proof -
  have w: "is_write CHR ''W''" by (simp add: is_write_def)
  have miss: "lookup_way (initial_state demo_config) (run_config demo_config) 0x40 = None"
    by code_simp
  from mem_ref_count[of "CHR ''W''" "initial_state demo_config" "run_config demo_config" "0x40"]
    w miss
  show ?thesis by auto
qed

text \<open>
  C4. A write that misses increments \<open>misses\<close> and \<open>mem_writes\<close> and nothing else: the
  whole cache array (valid flag, tag and counter of every line of every set) is the same
  before and after, and \<open>hits\<close> and \<open>mem_reads\<close> keep their values.
\<close>

theorem write_miss_frame:
  assumes "is_write access_type" and "lookup_way s config address = None"
  shows "cache (access_cache s config access_type address) = cache s
    \<and> misses (stats (access_cache s config access_type address)) = misses (stats s) + 1
    \<and> mem_writes (stats (access_cache s config access_type address)) = mem_writes (stats s) + 1
    \<and> hits (stats (access_cache s config access_type address)) = hits (stats s)
    \<and> mem_reads (stats (access_cache s config access_type address)) = mem_reads (stats s)"
  using assms
  by (auto simp: access_cache_def Let_def is_read_def is_write_def print_line_def)

theorem write_miss_frame_witness:
  "is_write CHR ''w''
   \<and> lookup_way (initial_state demo_config) (run_config demo_config) 0x40 = None
   \<and> cache (access_cache (initial_state demo_config) (run_config demo_config) CHR ''w'' 0x40)
       = cache (initial_state demo_config)
   \<and> stats (access_cache (initial_state demo_config) (run_config demo_config) CHR ''w'' 0x40)
       = \<lparr>hits = 0, misses = 1, mem_reads = 0, mem_writes = 1\<rparr>"
proof -
  have w: "is_write CHR ''w''" by (simp add: is_write_def)
  have miss: "lookup_way (initial_state demo_config) (run_config demo_config) 0x40 = None"
    by code_simp
  have st: "stats (initial_state demo_config) = stats0" by (simp add: initial_state_def)
  from write_miss_frame[OF w miss] st
  have "cache (access_cache (initial_state demo_config) (run_config demo_config) CHR ''w'' 0x40)
          = cache (initial_state demo_config)"
    and "stats (access_cache (initial_state demo_config) (run_config demo_config) CHR ''w'' 0x40)
          = \<lparr>hits = 0, misses = 1, mem_reads = 0, mem_writes = 1\<rparr>"
    by (simp_all add: stats0_def)
  with w miss show ?thesis by simp
qed

text \<open>
  C10. An access whose character is none of R, r, W, w changes nothing: \<open>access_cache\<close>
  returns the state it was given (every line, the four counters, and no line printed).
  Such an access does reach \<open>access_cache\<close>: the trace loop checks only size and alignment.
\<close>

theorem unknown_kind_ignored:
  assumes "\<not> is_read access_type" and "\<not> is_write access_type"
  shows "access_cache s config access_type address = s
     \<and> (\<forall>sz rest. (sz = 1 \<or> sz = 2 \<or> sz = 4 \<or> sz = 8)
                     \<and> address AND word_of_int (sz - 1) = 0 \<longrightarrow>
           trace_loop s config ((access_type, sz, address) # rest)
             = trace_loop (access_cache s config access_type address) config rest)"
  using assms by (auto simp: access_cache_def Let_def)

theorem unknown_kind_ignored_witness:
  "\<not> is_read CHR ''X'' \<and> \<not> is_write CHR ''X''
   \<and> access_cache (initial_state demo_config) (run_config demo_config) CHR ''X'' 0x40
       = initial_state demo_config
   \<and> trace_loop (initial_state demo_config) (run_config demo_config) [(CHR ''X'', 4, 0x40)]
       = initial_state demo_config"
proof -
  have a: "\<not> is_read CHR ''X''" and b: "\<not> is_write CHR ''X''"
    by (simp_all add: is_read_def is_write_def)
  have al: "(0x40 :: u32) AND word_of_int (4 - 1) = 0" by simp
  from unknown_kind_ignored[OF a b, of "initial_state demo_config" "run_config demo_config" "0x40"] al
  have "access_cache (initial_state demo_config) (run_config demo_config) CHR ''X'' 0x40
       = initial_state demo_config"
    and "trace_loop (initial_state demo_config) (run_config demo_config) [(CHR ''X'', 4, 0x40)]
       = initial_state demo_config"
    by simp_all
  with a b show ?thesis by simp
qed

text \<open>
  C5. Touching a way of a set (\<open>update_lru\<close>) leaves every valid flag and tag alone,
  lowers by one the counter of exactly the valid lines whose counter is above the
  touched line's counter as it was before the call, and then sets the touched line's
  counter to \<open>associativity - 1\<close>; every other counter keeps its value. The decrement
  never wraps: it is applied to counters above another counter only. This holds for every
  set of \<open>associativity\<close> lines and every way of it, reachable or not.
\<close>

theorem touch_rule:
  assumes "int (length lines) = assoc" and "way < length lines"
  shows "length (update_lru lines assoc way) = length lines \<and>
    (\<forall>i \<in> {0..<length lines}.
       valid (update_lru lines assoc way ! i) = valid (lines ! i) \<and>
       tag (update_lru lines assoc way ! i) = tag (lines ! i) \<and>
       lru_counter (update_lru lines assoc way ! i) =
         (if i = way then word_of_int (assoc - 1)
          else if valid (lines ! i) \<and> lru_counter (lines ! way) < lru_counter (lines ! i)
            then lru_counter (lines ! i) - 1
          else lru_counter (lines ! i)) \<and>
       (lru_counter (lines ! way) < lru_counter (lines ! i) \<longrightarrow>
          unat (lru_counter (lines ! i) - 1) + 1 = unat (lru_counter (lines ! i))))"
proof (intro conjI ballI)
  show "length (update_lru lines assoc way) = length lines"
    by (simp add: update_lru_def Let_def)
next
  fix i assume "i \<in> {0..<length lines}"
  then have i: "i < length lines" by simp
  with assms have ia: "int i < assoc" by auto
  let ?c = "lru_counter (lines ! way)"
  have nth: "update_lru lines assoc way ! i =
      (if i = way
       then (update_lru_loop lines ?c assoc 0 ! way)\<lparr>lru_counter := word_of_int (assoc - 1)\<rparr>
       else update_lru_loop lines ?c assoc 0 ! i)"
    using i assms(2) by (simp add: update_lru_def Let_def nth_list_update)
  show "valid (update_lru lines assoc way ! i) = valid (lines ! i)"
    using i ia by (simp add: nth update_lru_loop_nth)
  show "tag (update_lru lines assoc way ! i) = tag (lines ! i)"
    using i ia by (simp add: nth update_lru_loop_nth)
  show "lru_counter (update_lru lines assoc way ! i) =
         (if i = way then word_of_int (assoc - 1)
          else if valid (lines ! i) \<and> lru_counter (lines ! way) < lru_counter (lines ! i)
            then lru_counter (lines ! i) - 1
          else lru_counter (lines ! i))"
    using i ia by (simp add: nth update_lru_loop_nth)
  show "lru_counter (lines ! way) < lru_counter (lines ! i) \<longrightarrow>
          unat (lru_counter (lines ! i) - 1) + 1 = unat (lru_counter (lines ! i))"
  proof
    assume lt: "lru_counter (lines ! way) < lru_counter (lines ! i)"
    then have nz: "lru_counter (lines ! i) \<noteq> 0" by (auto simp: word_less_nat_alt)
    then have "unat (lru_counter (lines ! i)) \<noteq> 0" by (simp add: unat_eq_zero)
    with unat_minus_one[OF nz]
    show "unat (lru_counter (lines ! i) - 1) + 1 = unat (lru_counter (lines ! i))" by simp
  qed
qed

theorem touch_rule_witness:
  "int (length demo_row) = 2 \<and> 0 < length demo_row \<and>
   update_lru demo_row 2 0 =
     [\<lparr>valid = True, tag = 7, lru_counter = 1\<rparr>, \<lparr>valid = True, tag = 9, lru_counter = 0\<rparr>]"
proof -
  have h1: "int (length demo_row) = 2" by (simp add: demo_row_def)
  have h2: "0 < length demo_row" by (simp add: demo_row_def)
  have len: "length demo_row = 2" by (simp add: demo_row_def)
  from touch_rule[OF h1 h2]
  have a: "length (update_lru demo_row 2 0) = 2"
    and b: "\<forall>i \<in> {0..<2}. valid (update_lru demo_row 2 0 ! i) = valid (demo_row ! i) \<and>
       tag (update_lru demo_row 2 0 ! i) = tag (demo_row ! i) \<and>
       lru_counter (update_lru demo_row 2 0 ! i) =
         (if i = 0 then word_of_int (2 - 1)
          else if valid (demo_row ! i) \<and> lru_counter (demo_row ! 0) < lru_counter (demo_row ! i)
            then lru_counter (demo_row ! i) - 1
          else lru_counter (demo_row ! i))"
    unfolding len by auto
  from b have b0: "update_lru demo_row 2 0 ! 0 = \<lparr>valid = True, tag = 7, lru_counter = 1\<rparr>"
    by (simp add: demo_row_def)
  from b have b1: "update_lru demo_row 2 0 ! 1 = \<lparr>valid = True, tag = 9, lru_counter = 0\<rparr>"
    by (simp add: demo_row_def)
  have "update_lru demo_row 2 0 =
     [\<lparr>valid = True, tag = 7, lru_counter = 1\<rparr>, \<lparr>valid = True, tag = 9, lru_counter = 0\<rparr>]"
    using a b0 b1 by (auto simp: list_eq_iff_nth_eq less_Suc_eq numeral_2_eq_2)
  with h1 h2 show ?thesis by simp
qed


text \<open>
  C6. Victim selection (\<open>find_lru_victim\<close>) on a set of \<open>associativity\<close> lines returns
  a way of the set; if some line is invalid it is the lowest invalid way; if all lines
  are valid it is a way of minimal counter, and every way before it has a strictly
  larger counter (the first minimum wins).
\<close>

theorem victim_rule:
  assumes "int (length lines) = assoc" and "0 < length lines"
  shows "find_lru_victim lines assoc < length lines \<and>
    ((\<exists>i \<in> {0..<length lines}. \<not> valid (lines ! i)) \<longrightarrow>
       \<not> valid (lines ! find_lru_victim lines assoc) \<and>
       (\<forall>j \<in> {0..<find_lru_victim lines assoc}. valid (lines ! j))) \<and>
    ((\<forall>i \<in> {0..<length lines}. valid (lines ! i)) \<longrightarrow>
       (\<forall>j \<in> {0..<length lines}.
          lru_counter (lines ! find_lru_victim lines assoc) \<le> lru_counter (lines ! j)) \<and>
       (\<forall>j \<in> {0..<find_lru_victim lines assoc}.
          lru_counter (lines ! find_lru_victim lines assoc) < lru_counter (lines ! j)))"
proof (intro conjI impI)
  show "find_lru_victim lines assoc < length lines"
    by (rule find_lru_victim_props(1)[OF assms])
next
  assume "\<exists>i \<in> {0..<length lines}. \<not> valid (lines ! i)"
  then obtain i where "i < length lines" "\<not> valid (lines ! i)" by auto
  from find_lru_victim_props(2)[OF assms this]
  show "\<not> valid (lines ! find_lru_victim lines assoc)"
    and "\<forall>j \<in> {0..<find_lru_victim lines assoc}. valid (lines ! j)" by auto
next
  assume "\<forall>i \<in> {0..<length lines}. valid (lines ! i)"
  then have "\<And>i. i < length lines \<Longrightarrow> valid (lines ! i)" by simp
  from find_lru_victim_props(3)[OF assms this]
  show "\<forall>j \<in> {0..<length lines}.
          lru_counter (lines ! find_lru_victim lines assoc) \<le> lru_counter (lines ! j)"
    and "\<forall>j \<in> {0..<find_lru_victim lines assoc}.
          lru_counter (lines ! find_lru_victim lines assoc) < lru_counter (lines ! j)" by auto
qed

theorem victim_rule_witness:
  "int (length demo_row) = 2 \<and> 0 < length demo_row
   \<and> valid (demo_row ! 0) \<and> valid (demo_row ! 1)
   \<and> find_lru_victim demo_row 2 = 0
   \<and> lru_counter (demo_row ! find_lru_victim demo_row 2) \<le> lru_counter (demo_row ! 1)"
proof -
  have h1: "int (length demo_row) = 2" by (simp add: demo_row_def)
  have h2: "0 < length demo_row" by (simp add: demo_row_def)
  have v: "find_lru_victim demo_row 2 = 0" by code_simp
  have v0: "valid (demo_row ! 0)" and v1: "valid (demo_row ! 1)"
    by (simp_all add: demo_row_def)
  have full: "\<forall>i \<in> {0..<length demo_row}. valid (demo_row ! i)"
    using v0 v1 by (auto simp: demo_row_def less_Suc_eq numeral_2_eq_2)
  from victim_rule[OF h1 h2] full
  have "\<forall>j \<in> {0..<length demo_row}.
          lru_counter (demo_row ! find_lru_victim demo_row 2) \<le> lru_counter (demo_row ! j)"
    by blast
  moreover have "1 \<in> {0..<length demo_row}" by (simp add: demo_row_def)
  ultimately
  have "lru_counter (demo_row ! find_lru_victim demo_row 2) \<le> lru_counter (demo_row ! 1)"
    by blast
  with h1 h2 v v0 v1 show ?thesis by simp
qed

text \<open>
  C8. \<open>validate_config\<close> accepts a configuration exactly when the number of sets is a
  power of two in 1..8192, the associativity is in 1..8 (a power of two or not) and the
  line size is a power of two in 8..64. A configuration it rejects ends \<open>main\<close> with that
  error before \<open>init_cache\<close> builds a cache.
\<close>

theorem validate_config_iff:
  "(validate_config config = None \<longleftrightarrow>
      1 \<le> num_sets config \<and> num_sets config \<le> 8192 \<and> (\<exists>k. num_sets config = 2 ^ k)
      \<and> 1 \<le> associativity config \<and> associativity config \<le> 8
      \<and> 8 \<le> line_size config \<and> line_size config \<le> 64 \<and> (\<exists>k. line_size config = 2 ^ k))
   \<and> (\<forall>e. validate_config config = Some e \<longrightarrow> main_run config trace = Inl e)"
proof (intro conjI allI impI)
  show "validate_config config = None \<longleftrightarrow>
      1 \<le> num_sets config \<and> num_sets config \<le> 8192 \<and> (\<exists>k. num_sets config = 2 ^ k)
      \<and> 1 \<le> associativity config \<and> associativity config \<le> 8
      \<and> 8 \<le> line_size config \<and> line_size config \<le> 64 \<and> (\<exists>k. line_size config = 2 ^ k)"
  proof (cases "0 < num_sets config \<and> 0 < line_size config")
    case True
    then show ?thesis
      using pow2_test[of "num_sets config"] pow2_test[of "line_size config"]
      by (auto simp: validate_config_def MAX_CACHE_SETS_def MAX_ASSOCIATIVITY_def
            MAX_LINE_SIZE_def)
  next
    case False
    then show ?thesis
      by (auto simp: validate_config_def MAX_CACHE_SETS_def MAX_ASSOCIATIVITY_def
            MAX_LINE_SIZE_def)
  qed
next
  fix e assume "validate_config config = Some e"
  then show "main_run config trace = Inl e" by (simp add: main_run_def)
qed

theorem validate_config_iff_witness:
  "validate_config demo_config = None
   \<and> validate_config (demo_config\<lparr>associativity := 3\<rparr>) = None
   \<and> validate_config (demo_config\<lparr>num_sets := 12\<rparr>) = Some SetsNotPow2
   \<and> main_run (demo_config\<lparr>num_sets := 12\<rparr>) [] = Inl SetsNotPow2"
proof -
  have a: "validate_config demo_config = None" by code_simp
  have b: "validate_config (demo_config\<lparr>associativity := 3\<rparr>) = None" by code_simp
  have c: "validate_config (demo_config\<lparr>num_sets := 12\<rparr>) = Some SetsNotPow2" by code_simp
  from validate_config_iff[of "demo_config\<lparr>num_sets := 12\<rparr>" "[]"] c
  have "main_run (demo_config\<lparr>num_sets := 12\<rparr>) [] = Inl SetsNotPow2" by blast
  with a b c show ?thesis by simp
qed


text \<open>
  C7. In every state \<open>main\<close> reaches from the all-invalid cache of an accepted
  configuration, whatever the trace, the cache has \<open>num_sets\<close> sets of \<open>associativity\<close>
  lines, and in every set the valid lines have pairwise different tags and pairwise
  different counters, each counter at most \<open>associativity - 1\<close>.
\<close>

theorem set_invariant:
  assumes "main_run config tr = Inr s"
  shows "length (cache s) = nat (num_sets config)
     \<and> (\<forall>row \<in> set (cache s).
           int (length row) = associativity config \<and> row_ok (associativity config) row)"
proof -
  from assms have v: "validate_config config = None"
    and s: "s = trace_loop (initial_state config) (run_config config) tr"
    by (simp_all add: main_run_Inr)
  have "cache_inv (run_config config) (cache s)"
    unfolding s by (rule trace_loop_inv[OF cache_inv_initial[OF v]])
  then have "\<forall>row \<in> set (cache s).
           int (length row) = associativity config \<and> row_ok (associativity config) row"
    by (auto simp: cache_inv_def row_inv_def)
  moreover have "length (cache s) = nat (num_sets config)"
    unfolding s by (simp add: initial_cache)
  ultimately show ?thesis by simp
qed


theorem set_invariant_witness:
  "main_run demo_config [(CHR ''R'', 1, 0x00), (CHR ''R'', 1, 0x40), (CHR ''W'', 1, 0x00)]
     = Inr \<lparr>cache = [[\<lparr>valid = True, tag = 0, lru_counter = 1\<rparr>,
                         \<lparr>valid = True, tag = 1, lru_counter = 0\<rparr>],
                        [empty_line, empty_line], [empty_line, empty_line],
                        [empty_line, empty_line]],
             stats = \<lparr>hits = 1, misses = 2, mem_reads = 2, mem_writes = 1\<rparr>,
             printed =
               [\<lparr>o_type = CHR ''R'', o_address = 0, o_tag = 0, o_index = 0, o_offset = 0,
                   o_hit = False, o_memrefs = 1\<rparr>,
                \<lparr>o_type = CHR ''R'', o_address = 0x40, o_tag = 1, o_index = 0, o_offset = 0,
                   o_hit = False, o_memrefs = 1\<rparr>,
                \<lparr>o_type = CHR ''W'', o_address = 0, o_tag = 0, o_index = 0, o_offset = 0,
                   o_hit = True, o_memrefs = 1\<rparr>]\<rparr>
   \<and> row_ok 2 [\<lparr>valid = True, tag = 0, lru_counter = 1\<rparr>,
                \<lparr>valid = True, tag = 1, lru_counter = 0\<rparr>]"
proof -
  have run: "main_run demo_config [(CHR ''R'', 1, 0x00), (CHR ''R'', 1, 0x40), (CHR ''W'', 1, 0x00)]
     = Inr \<lparr>cache = [[\<lparr>valid = True, tag = 0, lru_counter = 1\<rparr>,
                         \<lparr>valid = True, tag = 1, lru_counter = 0\<rparr>],
                        [empty_line, empty_line], [empty_line, empty_line],
                        [empty_line, empty_line]],
             stats = \<lparr>hits = 1, misses = 2, mem_reads = 2, mem_writes = 1\<rparr>,
             printed =
               [\<lparr>o_type = CHR ''R'', o_address = 0, o_tag = 0, o_index = 0, o_offset = 0,
                   o_hit = False, o_memrefs = 1\<rparr>,
                \<lparr>o_type = CHR ''R'', o_address = 0x40, o_tag = 1, o_index = 0, o_offset = 0,
                   o_hit = False, o_memrefs = 1\<rparr>,
                \<lparr>o_type = CHR ''W'', o_address = 0, o_tag = 0, o_index = 0, o_offset = 0,
                   o_hit = True, o_memrefs = 1\<rparr>]\<rparr>"
    by code_simp
  have "associativity demo_config = 2" by (simp add: demo_config_def)
  with set_invariant[OF run]
  have "row_ok 2 [\<lparr>valid = True, tag = 0, lru_counter = 1\<rparr>,
                  \<lparr>valid = True, tag = 1, lru_counter = 0\<rparr>]" by simp
  with run show ?thesis by simp
qed

text \<open>
  C9, as the specification states it, fails: the counters are 32-bit \<open>int\<close>s. After
  \<open>2^31\<close> reads of address 0 (one miss, then hits) \<open>hits\<close> is \<open>INT_MAX\<close>; one more such
  read is a hit that takes \<open>hits\<close> to \<open>INT_MIN\<close>, so the counter has decreased, and after
  these \<open>2^31 + 1\<close> processed entries \<open>hits + misses\<close> is \<open>-2147483647\<close>.
\<close>

theorem statistics_overflow:
  "main_run demo_config brim_trace = Inr brim_state
   \<and> sint (hits (stats brim_state)) = 2147483647
   \<and> sint (hits (stats (access_cache brim_state (run_config demo_config) CHR ''R'' 0)))
       = - 2147483648
   \<and> main_run demo_config (brim_trace @ [first_read])
       = Inr (access_cache brim_state (run_config demo_config) CHR ''R'' 0)
   \<and> length (filter processed (brim_trace @ [first_read])) = 2147483649
   \<and> sint (hits (stats (access_cache brim_state (run_config demo_config) CHR ''R'' 0)))
       + sint (misses (stats (access_cache brim_state (run_config demo_config) CHR ''R'' 0)))
       = - 2147483647"
proof -
  let ?c = "run_config demo_config"
  let ?s' = "access_cache brim_state ?c CHR ''R'' 0"
  have ok: "validate_config demo_config = None" by code_simp
  have run: "main_run demo_config brim_trace = Inr brim_state"
    by (simp add: main_run_Inr ok brim_state_def)
  have "(2::nat) ^ 31 = Suc (2 ^ 31 - 1)" by simp
  then have tr: "brim_trace = replicate (Suc (2 ^ 31 - 1)) first_read"
    unfolding brim_trace_def by (rule arg_cong)
  from cold_then_warm[of "2 ^ 31 - 1"]
  have warm: "cache brim_state
      = [[\<lparr>valid = True, tag = 0, lru_counter = 1\<rparr>, empty_line],
         [empty_line, empty_line], [empty_line, empty_line], [empty_line, empty_line]]"
    and h: "hits (stats brim_state) = of_nat (2 ^ 31 - 1)"
    and m: "misses (stats brim_state) = 1"
    unfolding brim_state_def tr by blast+
  have hv: "sint (hits (stats brim_state)) = 2147483647" unfolding h by simp
  have h': "hits (stats ?s') = of_nat (2 ^ 31 - 1) + 1" and m': "misses (stats ?s') = 1"
    using warm_read(2,3)[OF warm] h m by simp_all
  have hv': "sint (hits (stats ?s')) = - 2147483648" unfolding h' by simp
  have mv': "sint (misses (stats ?s')) = 1" unfolding m' by simp
  have run': "main_run demo_config (brim_trace @ [first_read]) = Inr ?s'"
    by (simp add: main_run_Inr ok trace_loop_append brim_state_def[symmetric] first_read_def)
  have n: "length (filter processed (brim_trace @ [first_read])) = 2147483649"
    by (simp add: brim_trace_def processed_first_read)
  show ?thesis using run hv hv' run' n mv' by simp
qed

text \<open>
  C9, amended. A call of \<open>access_cache\<close> lowers no counter that is below \<open>INT_MAX\<close> before
  the call (the counters are 32-bit \<open>int\<close>s, and the increment of a counter at \<open>INT_MAX\<close>
  wraps to \<open>INT_MIN\<close>); nothing else changes a counter. When \<open>main\<close> has run a trace with
  at most \<open>INT_MAX = 2^31 - 1\<close> processed entries (the reads and writes that reach
  \<open>access_cache\<close>) from the initial state, \<open>hits + misses\<close> is the number of processed
  entries, one line was printed for each of them, the four counters equal the sums over
  the printed lines (hit lines, miss lines, memory references of the read lines and of
  the write lines), and the counters after any beginning of the trace are at most the
  counters at its end.
\<close>

theorem statistics_totals:
  "(sint (hits (stats state)) < INT_MAX \<longrightarrow>
      sint (hits (stats state)) \<le> sint (hits (stats (access_cache state cfg access_type address))))
   \<and> (sint (misses (stats state)) < INT_MAX \<longrightarrow>
      sint (misses (stats state))
        \<le> sint (misses (stats (access_cache state cfg access_type address))))
   \<and> (sint (mem_reads (stats state)) < INT_MAX \<longrightarrow>
      sint (mem_reads (stats state))
        \<le> sint (mem_reads (stats (access_cache state cfg access_type address))))
   \<and> (sint (mem_writes (stats state)) < INT_MAX \<longrightarrow>
      sint (mem_writes (stats state))
        \<le> sint (mem_writes (stats (access_cache state cfg access_type address))))
   \<and> (main_run config (before @ rest) = Inr s
        \<and> int (length (filter processed (before @ rest))) \<le> INT_MAX \<longrightarrow>
        sint (hits (stats s)) + sint (misses (stats s))
          = int (length (filter processed (before @ rest)))
        \<and> length (printed s) = length (filter processed (before @ rest))
        \<and> stats_agree s
        \<and> stats_le (stats (trace_loop (initial_state config) (run_config config) before))
             (stats s))"
proof (intro conjI impI)
  show "sint (hits (stats state)) \<le> sint (hits (stats (access_cache state cfg access_type address)))"
    if "sint (hits (stats state)) < INT_MAX"
    using access_cache_counter_steps(1)[of state cfg access_type address] sint_le_succ[OF that]
    by auto
  show "sint (misses (stats state))
        \<le> sint (misses (stats (access_cache state cfg access_type address)))"
    if "sint (misses (stats state)) < INT_MAX"
    using access_cache_counter_steps(2)[of state cfg access_type address] sint_le_succ[OF that]
    by auto
  show "sint (mem_reads (stats state))
        \<le> sint (mem_reads (stats (access_cache state cfg access_type address)))"
    if "sint (mem_reads (stats state)) < INT_MAX"
    using access_cache_counter_steps(3)[of state cfg access_type address] sint_le_succ[OF that]
    by auto
  show "sint (mem_writes (stats state))
        \<le> sint (mem_writes (stats (access_cache state cfg access_type address)))"
    if "sint (mem_writes (stats state)) < INT_MAX"
    using access_cache_counter_steps(4)[of state cfg access_type address] sint_le_succ[OF that]
    by auto
next
  assume a: "main_run config (before @ rest) = Inr s
        \<and> int (length (filter processed (before @ rest))) \<le> INT_MAX"
  let ?i = "initial_state config" and ?c = "run_config config"
  let ?s1 = "trace_loop ?i ?c before"
  from a have s: "s = trace_loop ?i ?c (before @ rest)" by (simp add: main_run_Inr)
  from a have n: "int (length (printed ?i)) + int (length (filter processed (before @ rest))) \<le> INT_MAX"
    by (simp add: initial_state_def)
  then have n1: "int (length (printed ?i)) + int (length (filter processed before)) \<le> INT_MAX"
    by simp
  from trace_loop_stats_agree[OF initial_agree n]
  have ok: "lines_ok s" unfolding s by simp
  from trace_loop_stats_agree[OF initial_agree n]
  show ag: "stats_agree s" unfolding s by simp
  show len: "length (printed s) = length (filter processed (before @ rest))"
    unfolding s by (simp add: trace_loop_printed_length initial_state_def)
  show "sint (hits (stats s)) + sint (misses (stats s))
          = int (length (filter processed (before @ rest)))"
    using stats_agree_total[OF ag] len by simp
  from trace_loop_stats_agree[OF initial_agree n1] have ag1: "stats_agree ?s1" by simp
  have "s = trace_loop ?s1 ?c rest" unfolding s by (rule trace_loop_append)
  with trace_loop_printed_prefix[of ?s1 ?c rest]
  obtain xs where "printed s = printed ?s1 @ xs" by auto
  from stats_agree_mono[OF ag1 ag ok this]
  show "stats_le (stats ?s1) (stats s)" .
qed

theorem statistics_totals_witness:
  "sint (hits (stats mixed_state)) < INT_MAX
   \<and> sint (hits (stats mixed_state))
       \<le> sint (hits (stats (access_cache mixed_state (run_config demo_config) CHR ''R'' 0)))
   \<and> sint (misses (stats mixed_state)) < INT_MAX
   \<and> sint (misses (stats mixed_state))
       \<le> sint (misses (stats (access_cache mixed_state (run_config demo_config) CHR ''R'' 0)))
   \<and> sint (mem_reads (stats mixed_state)) < INT_MAX
   \<and> sint (mem_reads (stats mixed_state))
       \<le> sint (mem_reads (stats (access_cache mixed_state (run_config demo_config) CHR ''R'' 0)))
   \<and> sint (mem_writes (stats mixed_state)) < INT_MAX
   \<and> sint (mem_writes (stats mixed_state))
       \<le> sint (mem_writes (stats (access_cache mixed_state (run_config demo_config) CHR ''R'' 0)))
   \<and> main_run demo_config (take 2 mixed_trace @ drop 2 mixed_trace) = Inr mixed_state
   \<and> int (length (filter processed (take 2 mixed_trace @ drop 2 mixed_trace))) \<le> INT_MAX
   \<and> length (filter processed mixed_trace) = 3
   \<and> sint (hits (stats mixed_state)) + sint (misses (stats mixed_state)) = 3
   \<and> length (printed mixed_state) = 3
   \<and> stats_agree mixed_state
   \<and> stats mixed_state = \<lparr>hits = 1, misses = 2, mem_reads = 1, mem_writes = 2\<rparr>
   \<and> stats_le (stats (trace_loop (initial_state demo_config) (run_config demo_config)
                        (take 2 mixed_trace)))
        (stats mixed_state)"
proof -
  have ok: "validate_config demo_config = None" by code_simp
  have run: "main_run demo_config (take 2 mixed_trace @ drop 2 mixed_trace) = Inr mixed_state"
    by (simp add: main_run_Inr ok mixed_state_def)
  have n: "length (filter processed mixed_trace) = 3" by code_simp
  then have le: "int (length (filter processed (take 2 mixed_trace @ drop 2 mixed_trace))) \<le> INT_MAX"
    by (simp add: INT_MAX_def)
  have st: "stats mixed_state = \<lparr>hits = 1, misses = 2, mem_reads = 1, mem_writes = 2\<rparr>"
    by code_simp
  have lt: "sint (hits (stats mixed_state)) < INT_MAX" "sint (misses (stats mixed_state)) < INT_MAX"
    "sint (mem_reads (stats mixed_state)) < INT_MAX"
    "sint (mem_writes (stats mixed_state)) < INT_MAX"
    unfolding st by (simp_all add: INT_MAX_def)
  note inst = statistics_totals[where state = mixed_state and cfg = "run_config demo_config"
      and access_type = "CHR ''R''" and address = 0 and config = demo_config
      and before = "take 2 mixed_trace" and rest = "drop 2 mixed_trace" and s = mixed_state]
  from inst lt have calls:
    "sint (hits (stats mixed_state))
       \<le> sint (hits (stats (access_cache mixed_state (run_config demo_config) CHR ''R'' 0)))"
    "sint (misses (stats mixed_state))
       \<le> sint (misses (stats (access_cache mixed_state (run_config demo_config) CHR ''R'' 0)))"
    "sint (mem_reads (stats mixed_state))
       \<le> sint (mem_reads (stats (access_cache mixed_state (run_config demo_config) CHR ''R'' 0)))"
    "sint (mem_writes (stats mixed_state))
       \<le> sint (mem_writes (stats (access_cache mixed_state (run_config demo_config) CHR ''R'' 0)))"
    by blast+
  from inst run le have totals:
    "sint (hits (stats mixed_state)) + sint (misses (stats mixed_state))
          = int (length (filter processed (take 2 mixed_trace @ drop 2 mixed_trace)))"
    "length (printed mixed_state) = length (filter processed (take 2 mixed_trace @ drop 2 mixed_trace))"
    "stats_agree mixed_state"
    "stats_le (stats (trace_loop (initial_state demo_config) (run_config demo_config)
                        (take 2 mixed_trace)))
        (stats mixed_state)"
    by blast+
  from totals(1,2) n have "sint (hits (stats mixed_state)) + sint (misses (stats mixed_state)) = 3"
    and "length (printed mixed_state) = 3" by simp_all
  with lt calls run le n st totals(3,4) show ?thesis by blast
qed

text \<open>
  C1. Take any state \<open>main\<close> reaches by a trace, and a read whose tag is not in its set
  while every line of that set is valid (the set has been filled). The way the read
  evicts, the victim \<open>find_lru_victim\<close> returns, is the way of the set whose last touch
  (the load or hit that last handed it to \<open>update_lru\<close>) is strictly older than the last
  touch of every other way. The new tag is loaded into that way, and every other way of
  the set keeps its valid flag and its tag.
\<close>

theorem true_lru_eviction:
  assumes run: "main_run config tr = Inr s"
    and rd: "is_read access_type"
    and miss: "lookup_way s (run_config config) address = None"
    and full: "\<forall>i \<in> {0..<length (cache s ! unat (addr_index (run_config config) address))}.
                 valid (cache s ! unat (addr_index (run_config config) address) ! i)"
  shows "let idx = unat (addr_index (run_config config) address);
             row = cache s ! idx;
             v = find_lru_victim row (associativity config);
             s' = access_cache s (run_config config) access_type address
         in v < length row
            \<and> (\<forall>w \<in> {0..<length row}. w \<noteq> v \<longrightarrow>
                  last_touch config tr idx v < last_touch config tr idx w)
            \<and> valid (cache s' ! idx ! v)
            \<and> tag (cache s' ! idx ! v) = addr_tag (run_config config) address
            \<and> (\<forall>w \<in> {0..<length row}. w \<noteq> v \<longrightarrow>
                  valid (cache s' ! idx ! w) \<and> tag (cache s' ! idx ! w) = tag (row ! w))"
proof -
  let ?cfg = "run_config config"
  let ?idx = "unat (addr_index ?cfg address)"
  let ?row = "cache s ! ?idx"
  let ?A = "associativity config"
  let ?v = "find_lru_victim ?row ?A"
  let ?t = "addr_tag ?cfg address"
  let ?r = "?row[?v := (?row ! ?v)\<lparr>valid := True, tag := ?t\<rparr>]"
  let ?s' = "access_cache s ?cfg access_type address"
  note invs = reachable_invs(1,2)[OF run] reachable_invs(3)[OF run, of address]
  have rin: "row_inv ?A ?row" using invs(1,3) by (auto simp: cache_inv_def)
  note d = row_invD[OF rin]
  from d(1,2) have pos: "0 < length ?row" by auto
  have allv: "\<And>i. i < length ?row \<Longrightarrow> valid (?row ! i)" using full by simp
  have v: "?v < length ?row" by (rule find_lru_victim_props(1)[OF d(1) pos])
  have minv: "\<forall>j < length ?row. lru_counter (?row ! ?v) \<le> lru_counter (?row ! j)"
    using find_lru_victim_props(3)[OF d(1) pos allv] by simp
  have lru: "last_touch config tr ?idx ?v < last_touch config tr ?idx w"
    if w: "w < length ?row" "w \<noteq> ?v" for w
  proof -
    have "unat (lru_counter (?row ! ?v)) \<le> unat (lru_counter (?row ! w))"
      using minv w(1) by (simp add: word_le_nat_alt)
    moreover have "unat (lru_counter (?row ! ?v)) \<noteq> unat (lru_counter (?row ! w))"
      using d(5)[OF v w(1) allv[OF v] allv[OF w(1)]] w(2) by auto
    ultimately have "unat (lru_counter (?row ! ?v)) < unat (lru_counter (?row ! w))" by simp
    then show ?thesis
      using invs(2,3) v w(1) allv[OF v] allv[OF w(1)] unfolding order_inv_def by blast
  qed
  have c': "cache ?s' = (cache s)[?idx := update_lru ?r ?A ?v]"
    using miss rd by (simp add: access_cache_cache Let_def)
  have row': "cache ?s' ! ?idx = update_lru ?r ?A ?v"
    unfolding c' using invs(3) by simp
  have lr: "int (length ?r) = ?A" "?v < length ?r" using d(1) v by simp_all
  have new: "valid (cache ?s' ! ?idx ! ?v)" "tag (cache ?s' ! ?idx ! ?v) = ?t"
    unfolding row' using update_lru_valid[OF lr lr(2)] update_lru_tag[OF lr lr(2)] v by simp_all
  have keep: "valid (cache ?s' ! ?idx ! w) \<and> tag (cache ?s' ! ?idx ! w) = tag (?row ! w)"
    if w: "w < length ?row" "w \<noteq> ?v" for w
  proof -
    have "w < length ?r" using w by simp
    from update_lru_valid[OF lr this] update_lru_tag[OF lr this] w allv[OF w(1)]
    show ?thesis unfolding row' by simp
  qed
  show ?thesis
    unfolding Let_def using v lru new keep by simp
qed

theorem true_lru_eviction_witness:
  "main_run demo_config demo_trace = Inr demo_state
   \<and> is_read CHR ''R''
   \<and> lookup_way demo_state (run_config demo_config) 0x80 = None
   \<and> cache demo_state ! 0 = [\<lparr>valid = True, tag = 0, lru_counter = 1\<rparr>,
                              \<lparr>valid = True, tag = 1, lru_counter = 0\<rparr>]
   \<and> find_lru_victim (cache demo_state ! 0) 2 = 1
   \<and> last_touch demo_config demo_trace 0 1 < last_touch demo_config demo_trace 0 0
   \<and> tag (cache (access_cache demo_state (run_config demo_config) CHR ''R'' 0x80) ! 0 ! 1) = 2
   \<and> tag (cache (access_cache demo_state (run_config demo_config) CHR ''R'' 0x80) ! 0 ! 0) = 0"
proof -
  have ok: "validate_config demo_config = None" by code_simp
  have run: "main_run demo_config demo_trace = Inr demo_state"
    by (simp add: main_run_Inr ok demo_state_def)
  have rd: "is_read CHR ''R''" by (simp add: is_read_def)
  have miss: "lookup_way demo_state (run_config demo_config) 0x80 = None" by code_simp
  have idx: "unat (addr_index (run_config demo_config) 0x80) = 0" by code_simp
  have row: "cache demo_state ! 0 = [\<lparr>valid = True, tag = 0, lru_counter = 1\<rparr>,
                                     \<lparr>valid = True, tag = 1, lru_counter = 0\<rparr>]"
    by code_simp
  have A: "associativity demo_config = 2" by (simp add: demo_config_def)
  have v: "find_lru_victim (cache demo_state ! 0) 2 = 1" unfolding row by code_simp
  have t: "addr_tag (run_config demo_config) 0x80 = 2" by code_simp
  have full: "\<forall>i \<in> {0..<length (cache demo_state ! unat (addr_index (run_config demo_config) 0x80))}.
                 valid (cache demo_state ! unat (addr_index (run_config demo_config) 0x80) ! i)"
    unfolding idx row by (auto simp: less_Suc_eq)
  from true_lru_eviction[OF run rd miss full]
  have lru: "\<forall>w \<in> {0..<2}. w \<noteq> 1 \<longrightarrow>
                last_touch demo_config demo_trace 0 1 < last_touch demo_config demo_trace 0 w"
    and new: "tag (cache (access_cache demo_state (run_config demo_config) CHR ''R'' 0x80) ! 0 ! 1) = 2"
    and keep: "\<forall>w \<in> {0..<2}. w \<noteq> 1 \<longrightarrow>
       valid (cache (access_cache demo_state (run_config demo_config) CHR ''R'' 0x80) ! 0 ! w)
       \<and> tag (cache (access_cache demo_state (run_config demo_config) CHR ''R'' 0x80) ! 0 ! w)
           = tag (cache demo_state ! 0 ! w)"
    unfolding Let_def idx A v t by (simp_all add: row)
  from lru have "last_touch demo_config demo_trace 0 1 < last_touch demo_config demo_trace 0 0"
    by simp
  moreover from keep
  have "tag (cache (access_cache demo_state (run_config demo_config) CHR ''R'' 0x80) ! 0 ! 0) = 0"
    by (simp add: row)
  ultimately show ?thesis using run rd miss row v new by simp
qed

text \<open>
  C2, as the specification states it, fails: with 4 sets, 2 ways and 16-byte lines the
  index is bits 4 and 5 of the address, so 0x10 has index 1 and 0x20 has index 2, not 0.
  The three reads go to three different sets, nothing is evicted, and set 0 ends with the
  tag of 0x00 in way 0 and an invalid way 1.
\<close>

theorem scenario_as_stated_fails:
  "main_run demo_config scenario_trace = Inr scenario_state
   \<and> addr_index (run_config demo_config) 0x10 \<noteq> 0
   \<and> addr_index (run_config demo_config) 0x20 \<noteq> 0
   \<and> map o_index (printed scenario_state) \<noteq> [0, 0, 0]
   \<and> cache scenario_state ! 0 \<noteq>
        [\<lparr>valid = True, tag = addr_tag (run_config demo_config) 0x20, lru_counter = 1\<rparr>,
         \<lparr>valid = True, tag = addr_tag (run_config demo_config) 0x10, lru_counter = 0\<rparr>]
   \<and> \<not> valid (cache scenario_state ! 0 ! 1)
   \<and> tag (cache scenario_state ! 0 ! 0) = addr_tag (run_config demo_config) 0x00
   \<and> valid (cache scenario_state ! 0 ! 0)"
proof -
  have ok: "validate_config demo_config = None" by code_simp
  have run: "main_run demo_config scenario_trace = Inr scenario_state"
    by (simp add: main_run_Inr ok scenario_state_def)
  have i1: "addr_index (run_config demo_config) 0x10 = 1" by code_simp
  have i2: "addr_index (run_config demo_config) 0x20 = 2" by code_simp
  have pr: "map o_index (printed scenario_state) = [0, 1, 2]" by code_simp
  have row: "cache scenario_state ! 0 = [\<lparr>valid = True, tag = 0, lru_counter = 1\<rparr>,
                                         \<lparr>valid = False, tag = 0, lru_counter = 0\<rparr>]"
    by code_simp
  have t0: "addr_tag (run_config demo_config) 0x00 = 0" by code_simp
  show ?thesis using run by (simp add: i1 i2 pr row t0)
qed

text \<open>
  C2, amended. With 4 sets, 2 ways and 16-byte lines (\<open>offset_bits = 4\<close>,
  \<open>index_bits = 2\<close>), reads of 0x00, 0x10, 0x20 have indices 0, 1, 2 and tag 0 each; all
  three miss, each loads way 0 of its own set, and nothing is evicted. The eviction the
  scenario describes is what reads of 0x00, 0x40, 0x80 do: index 0 for all three, tags
  0, 1, 2, three misses, the third replacing the line of 0x00 (the least recently used),
  so that set 0 ends with the tags of 0x40 and 0x80.
\<close>

theorem scenario_amended:
  "main_run demo_config scenario_trace = Inr scenario_state
   \<and> offset_bits (run_config demo_config) = 4 \<and> index_bits (run_config demo_config) = 2
   \<and> map o_index (printed scenario_state) = [0, 1, 2]
   \<and> map o_tag (printed scenario_state) = [0, 0, 0]
   \<and> map o_hit (printed scenario_state) = [False, False, False]
   \<and> cache scenario_state =
        [[\<lparr>valid = True, tag = 0, lru_counter = 1\<rparr>, empty_line],
         [\<lparr>valid = True, tag = 0, lru_counter = 1\<rparr>, empty_line],
         [\<lparr>valid = True, tag = 0, lru_counter = 1\<rparr>, empty_line],
         [empty_line, empty_line]]
   \<and> main_run demo_config eviction_trace = Inr eviction_state
   \<and> map o_index (printed eviction_state) = [0, 0, 0]
   \<and> map o_tag (printed eviction_state) = [0, 1, 2]
   \<and> map o_hit (printed eviction_state) = [False, False, False]
   \<and> cache (trace_loop (initial_state demo_config) (run_config demo_config)
               (take 2 eviction_trace)) ! 0 =
        [\<lparr>valid = True, tag = 0, lru_counter = 0\<rparr>,
         \<lparr>valid = True, tag = 1, lru_counter = 1\<rparr>]
   \<and> cache eviction_state ! 0 =
        [\<lparr>valid = True, tag = 2, lru_counter = 1\<rparr>,
         \<lparr>valid = True, tag = 1, lru_counter = 0\<rparr>]"
proof -
  have ok: "validate_config demo_config = None" by code_simp
  have run1: "main_run demo_config scenario_trace = Inr scenario_state"
    by (simp add: main_run_Inr ok scenario_state_def)
  have run2: "main_run demo_config eviction_trace = Inr eviction_state"
    by (simp add: main_run_Inr ok eviction_state_def)
  have bits: "offset_bits (run_config demo_config) = 4" "index_bits (run_config demo_config) = 2"
    by code_simp+
  have a: "map o_index (printed scenario_state) = [0, 1, 2]"
    "map o_tag (printed scenario_state) = [0, 0, 0]"
    "map o_hit (printed scenario_state) = [False, False, False]"
    by code_simp+
  have b: "cache scenario_state =
        [[\<lparr>valid = True, tag = 0, lru_counter = 1\<rparr>, empty_line],
         [\<lparr>valid = True, tag = 0, lru_counter = 1\<rparr>, empty_line],
         [\<lparr>valid = True, tag = 0, lru_counter = 1\<rparr>, empty_line],
         [empty_line, empty_line]]"
    by code_simp
  have c: "map o_index (printed eviction_state) = [0, 0, 0]"
    "map o_tag (printed eviction_state) = [0, 1, 2]"
    "map o_hit (printed eviction_state) = [False, False, False]"
    by code_simp+
  have d: "cache (trace_loop (initial_state demo_config) (run_config demo_config)
               (take 2 eviction_trace)) ! 0 =
        [\<lparr>valid = True, tag = 0, lru_counter = 0\<rparr>,
         \<lparr>valid = True, tag = 1, lru_counter = 1\<rparr>]"
    by code_simp
  have e: "cache eviction_state ! 0 =
        [\<lparr>valid = True, tag = 2, lru_counter = 1\<rparr>,
         \<lparr>valid = True, tag = 1, lru_counter = 0\<rparr>]"
    by code_simp
  show ?thesis
    by (intro conjI) (fact run1 run2 bits a b c d e)+
qed

end
